theory Spec2Isabelle
  imports Complex_Main "HOL-Library.Signed_Division" "HOL-Library.Log_Nat"
begin

section \<open>Machine integers, durations and clock readings\<close>

text \<open>
  Go's \<open>int64\<close> (and \<open>time.Duration\<close>, which is an \<open>int64\<close> count of
  nanoseconds, and \<open>int\<close>, taken to be 64 bits wide) is modelled by \<open>int\<close>; the two places of \<open>bbr.go\<close> where an
  \<open>int64\<close> is added to (\<open>c.buckets[idx] += val\<close>, \<open>atomic.AddInt64\<close>) wrap
  around explicitly through \<open>wrap64\<close>. Go's \<open>/\<close> and \<open>%\<close> truncate towards
  zero (\<open>sdiv\<close>, \<open>smod\<close>); a zero divisor is a run-time panic and is checked by
  every caller below before \<open>quo64\<close> or \<open>rem64\<close> is used.
\<close>

definition MaxInt64 :: int where
  "MaxInt64 = 9223372036854775807"

definition MinInt64 :: int where
  "MinInt64 = - 9223372036854775808"

definition is_int64 :: "int \<Rightarrow> bool" where
  "is_int64 x = (MinInt64 \<le> x \<and> x \<le> MaxInt64)"

definition wrap64 :: "int \<Rightarrow> int" where
  "wrap64 x = (x + 9223372036854775808) mod 18446744073709551616 - 9223372036854775808"

definition quo64 :: "int \<Rightarrow> int \<Rightarrow> int" where
  "quo64 a b = (if a = MinInt64 \<and> b = - 1 then MinInt64 else a sdiv b)"

definition rem64 :: "int \<Rightarrow> int \<Rightarrow> int" where
  "rem64 a b = a smod b"

definition Millisecond :: int where
  "Millisecond = 1000000"

definition Second :: int where
  "Second = 1000000000"

text \<open>
  A \<open>time.Time\<close> obtained from \<open>time.Now()\<close> carries a wall-clock reading and a
  monotonic reading. \<open>UnixNano\<close> is the wall clock; \<open>Sub\<close> (and \<open>time.Since\<close>)
  subtracts the monotonic readings and saturates at the ends of \<open>Duration\<close>.
  Every \<open>time.Now()\<close> of the source is a parameter of the function that calls it.
\<close>

record Time =
  wall :: int
  mono :: int

definition UnixNano :: "Time \<Rightarrow> int" where
  "UnixNano t = wall t"

definition Sub :: "Time \<Rightarrow> Time \<Rightarrow> int" where
  "Sub t u = (let d = mono t - mono u in
              if d > MaxInt64 then MaxInt64 else if d < MinInt64 then MinInt64 else d)"

datatype panic = DivideByZero | IndexOutOfRange | MakeSliceLen | NilFunc

section \<open>Values of type \<open>float64\<close>\<close>

text \<open>
  A \<open>float64\<close> is a number, a zero of either sign, an infinity or NaN.
  \<open>Fin r\<close> stands for the number \<open>r\<close>, \<open>Fin 0\<close> for the positive zero and
  \<open>NegZero\<close> for the negative one. The order is the one of Go's \<open><\<close> and
  \<open><=\<close>: every comparison with NaN is false, and the two zeros are equal.
\<close>

datatype float64 = NaN | NegInf | NegZero | Fin real | PosInf

fun val64 :: "float64 \<Rightarrow> real" where
  "val64 (Fin x) = x"
| "val64 a = 0"

fun lt64 :: "float64 \<Rightarrow> float64 \<Rightarrow> bool" where
  "lt64 NaN b = False"
| "lt64 a NaN = False"
| "lt64 PosInf b = False"
| "lt64 a NegInf = False"
| "lt64 NegInf b = True"
| "lt64 a PosInf = True"
| "lt64 a b = (val64 a < val64 b)"

instantiation float64 :: ord
begin

definition less_float64 :: "float64 \<Rightarrow> float64 \<Rightarrow> bool" where
  "less_float64 a b = lt64 a b"

definition less_eq_float64 :: "float64 \<Rightarrow> float64 \<Rightarrow> bool" where
  "less_eq_float64 a b = (a \<noteq> NaN \<and> b \<noteq> NaN \<and> \<not> lt64 b a)"

instance ..

end

text \<open>
  Arithmetic on \<open>float64\<close> rounds every result to the nearest value with a 53-bit
  significand, ties to the even significand: \<open>round64\<close> is that rounding, on the
  exact result taken as a real. \<open>expo x\<close> is the binary exponent of a positive
  \<open>x\<close> (\<open>2 ^ expo x <= x < 2 ^ (expo x + 1)\<close>) and \<open>rne\<close> rounds to the nearest
  integer, ties to even. The exponent is not bounded, so \<open>round64\<close> is the rounding of
  the machine wherever the result is neither subnormal nor beyond the largest
  \<open>float64\<close>. That is so for every conversion, product and quotient of
  \<open>maxInflight\<close>: its operands come from \<open>int64\<close> values, so that every result
  that is a number and not 0 lies between \<open>2 ^ -93\<close> and \<open>2 ^ 209\<close> in magnitude.
\<close>

definition rne :: "real \<Rightarrow> int" where
  "rne y = (let f = \<lfloor>y\<rfloor>; d = y - of_int f in
            if d < 1 / 2 then f else if d > 1 / 2 then f + 1
            else if even f then f else f + 1)"

definition expo :: "real \<Rightarrow> int" where
  "expo x = (if 1 \<le> x then bitlen \<lfloor>x\<rfloor> - 1
             else (let c = bitlen \<lfloor>1 / x\<rfloor> in
                   if x = 2 powi (1 - c) then 1 - c else - c))"

definition round64 :: "real \<Rightarrow> real" where
  "round64 x = (if x = 0 then 0
                else let e = expo \<bar>x\<bar> - 52 in
                     sgn x * of_int (rne (\<bar>x\<bar> / 2 powi e)) * 2 powi e)"

text \<open>
  The conversion \<open>float64(k)\<close> of an \<open>int64\<close>, the product and the quotient, with
  the special cases of IEEE 754: the sign of a product or quotient is the exclusive or
  of the signs, \<open>0 * inf\<close>, \<open>0 / 0\<close> and \<open>inf / inf\<close> are NaN, and a number
  divided by a zero is an infinity.
\<close>

definition of_int64 :: "int \<Rightarrow> float64" where
  "of_int64 k = Fin (round64 (real_of_int k))"

fun neg64 :: "float64 \<Rightarrow> bool" where
  "neg64 NegInf = True"
| "neg64 NegZero = True"
| "neg64 (Fin x) = (x < 0)"
| "neg64 a = False"

definition zero64 :: "float64 \<Rightarrow> bool" where
  "zero64 a = (a = NegZero \<or> a = Fin 0)"

definition inf64 :: "float64 \<Rightarrow> bool" where
  "inf64 a = (a = NegInf \<or> a = PosInf)"

definition signed_zero :: "bool \<Rightarrow> float64" where
  "signed_zero s = (if s then NegZero else Fin 0)"

definition signed_inf :: "bool \<Rightarrow> float64" where
  "signed_inf s = (if s then NegInf else PosInf)"

definition mul64 :: "float64 \<Rightarrow> float64 \<Rightarrow> float64" where
  "mul64 a b =
     (if a = NaN \<or> b = NaN then NaN
      else if (inf64 a \<and> zero64 b) \<or> (zero64 a \<and> inf64 b) then NaN
      else if inf64 a \<or> inf64 b then signed_inf (neg64 a \<noteq> neg64 b)
      else if zero64 a \<or> zero64 b then signed_zero (neg64 a \<noteq> neg64 b)
      else Fin (round64 (val64 a * val64 b)))"

definition div64 :: "float64 \<Rightarrow> float64 \<Rightarrow> float64" where
  "div64 a b =
     (if a = NaN \<or> b = NaN then NaN
      else if (inf64 a \<and> inf64 b) \<or> (zero64 a \<and> zero64 b) then NaN
      else if inf64 a \<or> zero64 b then signed_inf (neg64 a \<noteq> neg64 b)
      else if inf64 b \<or> zero64 a then signed_zero (neg64 a \<noteq> neg64 b)
      else Fin (round64 (val64 a / val64 b)))"

text \<open>
  \<open>make([]int64, n)\<close> panics (\<open>makeslice: len out of range\<close>) when \<open>n\<close> is
  negative or the \<open>8 * n\<close> bytes exceed the runtime's \<open>maxAlloc\<close>, which is
  \<open>2 ^ 48\<close> on 64-bit Linux. Running out of memory below that limit aborts the
  process and is not modelled.
\<close>

definition maxAlloc :: int where
  "maxAlloc = 281474976710656"

section \<open>The rolling counter\<close>

record rollingCounter =
  buckets :: "int list"
  window :: int
  bucketDur :: int
  lastUpdate :: Time
  isMin :: bool

text \<open>
  \<open>newRollingCounter(window, buckets, isMin)\<close>: \<open>make([]int64, buckets)\<close> panics
  on a negative or too large length and \<open>window / time.Duration(buckets)\<close> on a zero
  one.
\<close>

definition newRollingCounter :: "int \<Rightarrow> int \<Rightarrow> bool \<Rightarrow> Time \<Rightarrow> panic + rollingCounter" where
  "newRollingCounter w n m now =
     (if n < 0 \<or> 8 * n > maxAlloc then Inl MakeSliceLen
      else if n = 0 then Inl DivideByZero
      else Inr \<lparr> buckets = replicate (nat n) (if m then MaxInt64 else 0),
                 window = w,
                 bucketDur = quo64 w n,
                 lastUpdate = now,
                 isMin = m \<rparr>)"

text \<open>
  The clearing loop of \<open>rotate\<close>: \<open>for i := 1; i <= numToClear; i++\<close>, with
  \<open>k\<close> the number of iterations left. A negative index panics and leaves the slots
  cleared so far. The result is the panic, if any, and the slots.
\<close>

fun clearLoop :: "int \<Rightarrow> bool \<Rightarrow> int \<Rightarrow> nat \<Rightarrow> int list \<Rightarrow> panic option \<times> int list" where
  "clearLoop lastIdx m i 0 bs = (None, bs)"
| "clearLoop lastIdx m i (Suc k) bs =
     (let idx = rem64 (lastIdx + i) (int (length bs)) in
      if idx < 0 \<or> int (length bs) \<le> idx then (Some IndexOutOfRange, bs)
      else clearLoop lastIdx m (i + 1) k (bs[nat idx := (if m then MaxInt64 else 0)]))"

definition rotate_rc :: "rollingCounter \<Rightarrow> Time \<Rightarrow> panic option \<times> rollingCounter" where
  "rotate_rc c now =
     (if Sub now (lastUpdate c) < bucketDur c then (None, c)
      else
        let elapsed = Sub now (lastUpdate c) in
        if bucketDur c = 0 then (Some DivideByZero, c)
        else
          let n = int (length (buckets c));
              q = quo64 elapsed (bucketDur c);
              numToClear = (if q > n then n else q) in
          if n = 0 then (Some DivideByZero, c)
          else
            let lastIdx = rem64 (quo64 (UnixNano (lastUpdate c)) (bucketDur c)) n in
            case clearLoop lastIdx (isMin c) 1 (nat numToClear) (buckets c) of
              (Some e, bs) \<Rightarrow> (Some e, c\<lparr>buckets := bs\<rparr>)
            | (None, bs) \<Rightarrow> (None, c\<lparr>buckets := bs, lastUpdate := now\<rparr>))"

text \<open>
  \<open>Add(val)\<close> reads the clock twice: once inside \<open>rotate\<close> (\<open>tRot\<close>) and once
  for the index of the current bucket (\<open>tIdx\<close>).
\<close>

definition Add :: "rollingCounter \<Rightarrow> int \<Rightarrow> Time \<Rightarrow> Time \<Rightarrow> panic option \<times> rollingCounter" where
  "Add c val tRot tIdx =
     (case rotate_rc c tRot of
        (Some e, c') \<Rightarrow> (Some e, c')
      | (None, c') \<Rightarrow>
          if bucketDur c' = 0 then (Some DivideByZero, c')
          else if length (buckets c') = 0 then (Some DivideByZero, c')
          else
            let idx = rem64 (quo64 (UnixNano tIdx) (bucketDur c')) (int (length (buckets c'))) in
            if idx < 0 \<or> int (length (buckets c')) \<le> idx then (Some IndexOutOfRange, c')
            else if isMin c' then
              (if val < buckets c' ! nat idx
               then (None, c'\<lparr>buckets := (buckets c')[nat idx := val]\<rparr>)
               else (None, c'))
            else (None, c'\<lparr>buckets := (buckets c')[nat idx := wrap64 (buckets c' ! nat idx + val)]\<rparr>))"

text \<open>\<open>Max()\<close> and \<open>Min()\<close> scan the slots; neither reads the clock nor rotates.\<close>

definition max_step :: "bool \<Rightarrow> int \<Rightarrow> int \<Rightarrow> int" where
  "max_step m v mx =
     (if \<not> m then (if v > mx then v else mx)
      else (if v \<noteq> MaxInt64 \<and> v > mx then v else mx))"

definition Max_rc :: "rollingCounter \<Rightarrow> int" where
  "Max_rc c = fold (max_step (isMin c)) (buckets c) 0"

definition min_step :: "int \<Rightarrow> int \<times> bool \<Rightarrow> int \<times> bool" where
  "min_step v s =
     (if v > 0 \<and> v \<noteq> MaxInt64 then ((if v < fst s then v else fst s), True) else s)"

definition Min_rc :: "rollingCounter \<Rightarrow> int" where
  "Min_rc c =
     (let s = fold min_step (buckets c) (MaxInt64, False) in
      if \<not> snd s then 1 else fst s)"

section \<open>Configuration\<close>

text \<open>
  A \<open>func() float64\<close> is a handle, \<open>None\<close> for Go's \<open>nil\<close>; what a call of it
  returns is a parameter of the function that makes the call. The constant \<open>0.8\<close> of
  the source is the \<open>float64\<close> nearest to 0.8.
\<close>

datatype cpu_fn = defaultCPU | userCPU nat

record options =
  Window :: int
  Buckets :: int
  CPUThreshold :: float64
  CPU :: "cpu_fn option"
  CPUInterval :: int

datatype bbr_option =
    WithWindow int
  | WithBuckets int
  | WithCPUThreshold float64
  | WithCPU "cpu_fn option"
  | WithCPUInterval int

fun apply_option :: "bbr_option \<Rightarrow> options \<Rightarrow> options" where
  "apply_option (WithWindow w) o' = o'\<lparr>Window := w\<rparr>"
| "apply_option (WithBuckets b) o' = o'\<lparr>Buckets := b\<rparr>"
| "apply_option (WithCPUThreshold t) o' = o'\<lparr>CPUThreshold := t\<rparr>"
| "apply_option (WithCPU f) o' = o'\<lparr>CPU := f\<rparr>"
| "apply_option (WithCPUInterval i) o' = o'\<lparr>CPUInterval := i\<rparr>"

definition apply_opts :: "options \<Rightarrow> bbr_option list \<Rightarrow> options" where
  "apply_opts o' opts = fold apply_option opts o'"

definition defaultOptions :: options where
  "defaultOptions =
     \<lparr> Window = Second * 10,
       Buckets = 100,
       CPUThreshold = Fin (round64 0.8),
       CPU = Some defaultCPU,
       CPUInterval = Millisecond * 500 \<rparr>"

text \<open>
  \<open>setCPUInterval\<close> writes the package-level \<open>cpuInterval\<close>, which \<open>init\<close>
  therefore takes and returns next to the options.
\<close>

definition setCPUInterval :: "int \<Rightarrow> int \<Rightarrow> int" where
  "setCPUInterval interval cpuInterval = (if interval > 0 then interval else cpuInterval)"

definition init :: "options \<Rightarrow> int \<Rightarrow> options \<times> int" where
  "init o0 cpuInterval =
     (let o1 = (if Window o0 \<le> 0 then o0\<lparr>Window := Second * 10\<rparr> else o0);
          o2 = (if Buckets o1 \<le> 0 then o1\<lparr>Buckets := 100\<rparr> else o1);
          o3 = (if CPUThreshold o2 \<le> Fin 0 then o2\<lparr>CPUThreshold := Fin (round64 0.8)\<rparr>
                else o2);
          o4 = (if CPUInterval o3 \<le> 0 then o3\<lparr>CPUInterval := Millisecond * 500\<rparr> else o3)
      in if CPU o4 = None
         then (o4\<lparr>CPU := Some defaultCPU\<rparr>, setCPUInterval (CPUInterval o4) cpuInterval)
         else (o4, cpuInterval))"

section \<open>The limiter\<close>

record bbrLimiter =
  conf :: options
  inflight :: int
  passStat :: rollingCounter
  rtStat :: rollingCounter
  lastDrop :: "Time option"
  cpu :: "cpu_fn option"

definition newLimiter :: "options \<Rightarrow> Time \<Rightarrow> Time \<Rightarrow> panic + bbrLimiter" where
  "newLimiter o' tPass tRt =
     (case newRollingCounter (Window o') (Buckets o') False tPass of
        Inl e \<Rightarrow> Inl e
      | Inr p \<Rightarrow>
          (case newRollingCounter (Window o') (Buckets o') True tRt of
             Inl e \<Rightarrow> Inl e
           | Inr r \<Rightarrow>
               Inr \<lparr> conf = o', inflight = 0, passStat = p, rtStat = r,
                     lastDrop = None, cpu = CPU o' \<rparr>))"

text \<open>
  The first line of \<open>Server\<close>:
  \<open>defaultOptions().apply(opts...).init().newLimiter()\<close>.
\<close>

definition Server_limiter ::
  "bbr_option list \<Rightarrow> int \<Rightarrow> Time \<Rightarrow> Time \<Rightarrow> (panic + bbrLimiter) \<times> int" where
  "Server_limiter opts cpuInterval tPass tRt =
     (case init (apply_opts defaultOptions opts) cpuInterval of
        (o', g) \<Rightarrow> (newLimiter o' tPass tRt, g))"

text \<open>
  \<open>maxInflight\<close>: the four conversions \<open>float64(...)\<close>, the product and the
  three quotients, in the order of the source. \<open>1000.0\<close> is a \<open>float64\<close>.
\<close>

definition maxInflight :: "bbrLimiter \<Rightarrow> float64" where
  "maxInflight l =
     (let maxPass = Max_rc (passStat l);
          minRT = Min_rc (rtStat l);
          bucketDuration =
            div64 (div64 (of_int64 (Window (conf l))) (of_int64 (Buckets (conf l))))
                  (of_int64 Second)
      in div64 (div64 (mul64 (of_int64 maxPass) (of_int64 minRT)) (Fin 1000)) bucketDuration)"

text \<open>
  \<open>shouldDrop\<close>: \<open>reading\<close> is what \<open>l.cpu()\<close> returns, \<open>tSince\<close> the clock
  read by \<open>time.Since(*lastDrop)\<close> and \<open>tNow\<close> the one stored at a rejection.
  A nil \<open>cpu\<close> function panics at the first line.
\<close>

definition shouldDrop ::
  "bbrLimiter \<Rightarrow> float64 \<Rightarrow> Time \<Rightarrow> Time \<Rightarrow> panic + (bool \<times> bbrLimiter)" where
  "shouldDrop l reading tSince tNow =
     (case cpu l of
        None \<Rightarrow> Inl NilFunc
      | Some f \<Rightarrow>
          let concurrency =
                (if inflight l \<le> 1 then (False, l)
                 else if of_int64 (inflight l) > maxInflight l
                      then (True, l\<lparr>lastDrop := Some tNow\<rparr>)
                      else (False, l))
          in if reading < CPUThreshold (conf l) then
               (case lastDrop l of
                  None \<Rightarrow> Inr (False, l)
                | Some d \<Rightarrow>
                    if Sub tSince d > Second then Inr (False, l\<lparr>lastDrop := None\<rparr>)
                    else Inr concurrency)
             else Inr concurrency)"

text \<open>
  \<open>Allow\<close> returns a callback and an error. The callback is a closure over the
  limiter and \<open>startTime\<close>; \<open>None\<close> is Go's \<open>nil\<close> in both components.
\<close>

datatype callback = Callback Time

datatype error = ErrLimitExceeded

definition Allow ::
  "bbrLimiter \<Rightarrow> float64 \<Rightarrow> Time \<Rightarrow> Time \<Rightarrow> Time
     \<Rightarrow> panic + ((callback option \<times> error option) \<times> bbrLimiter)" where
  "Allow l reading tSince tNow tStart =
     (case shouldDrop l reading tSince tNow of
        Inl e \<Rightarrow> Inl e
      | Inr (True, l') \<Rightarrow> Inr ((None, Some ErrLimitExceeded), l')
      | Inr (False, l') \<Rightarrow>
          Inr ((Some (Callback tStart), None), l'\<lparr>inflight := wrap64 (inflight l' + 1)\<rparr>))"

text \<open>
  The completion callback. The decrement of \<open>inflight\<close> is deferred, so it runs
  last and also when one of the two \<open>Add\<close> calls panics. \<open>tDone\<close> is the clock
  read by \<open>time.Since(startTime)\<close>; each \<open>Add\<close> reads the clock twice.
\<close>

definition done_cb ::
  "bbrLimiter \<Rightarrow> callback \<Rightarrow> int \<Rightarrow> Time \<Rightarrow> Time \<times> Time \<Rightarrow> Time \<times> Time
     \<Rightarrow> panic option \<times> bbrLimiter" where
  "done_cb l cb status tDone tsPass tsRt =
     (case cb of Callback startTime \<Rightarrow>
        let rt = quo64 (Sub tDone startTime) Millisecond in
        if status \<ge> 200 \<and> status \<le> 299 then
          (case Add (passStat l) 1 (fst tsPass) (snd tsPass) of
             (Some e, p) \<Rightarrow>
               (Some e, l\<lparr>passStat := p, inflight := wrap64 (inflight l - 1)\<rparr>)
           | (None, p) \<Rightarrow>
               (case Add (rtStat l) rt (fst tsRt) (snd tsRt) of
                  (e, r) \<Rightarrow>
                    (e, l\<lparr>passStat := p, rtStat := r, inflight := wrap64 (inflight l - 1)\<rparr>)))
        else (None, l\<lparr>inflight := wrap64 (inflight l - 1)\<rparr>))"

section \<open>Notions used to state the properties\<close>

text \<open>The slots that \<open>Min()\<close> takes into account: strictly positive and not the sentinel.\<close>

definition qualifying :: "int list \<Rightarrow> int set" where
  "qualifying bs = {v \<in> set bs. 0 < v \<and> v \<noteq> MaxInt64}"

text \<open>
  The index of the bucket of a clock reading, as \<open>Add\<close> and \<open>rotate\<close> compute it:
  \<open>(t.UnixNano() / int64(c.bucketDur)) % int64(len(c.buckets))\<close>.
\<close>

definition bucketIndex :: "rollingCounter \<Rightarrow> Time \<Rightarrow> int" where
  "bucketIndex c t = rem64 (quo64 (UnixNano t) (bucketDur c)) (int (length (buckets c)))"

text \<open>
  A counter on which \<open>rotate\<close> cannot panic: it has slots, its bucket duration is at
  least one nanosecond, and its last update is not before the Unix epoch.
\<close>

definition rc_ok :: "rollingCounter \<Rightarrow> bool" where
  "rc_ok c = (buckets c \<noteq> [] \<and> 0 < bucketDur c \<and> 0 \<le> wall (lastUpdate c))"

text \<open>What \<open>Add\<close> writes into the rotated counter \<open>r\<close> once the index is in range.\<close>

definition Add_write :: "rollingCounter \<Rightarrow> int \<Rightarrow> Time \<Rightarrow> rollingCounter" where
  "Add_write r v t =
     (let idx = nat (bucketIndex r t) in
      if isMin r then (if v < buckets r ! idx then r\<lparr>buckets := (buckets r)[idx := v]\<rparr> else r)
      else r\<lparr>buckets := (buckets r)[idx := wrap64 (buckets r ! idx + v)]\<rparr>)"

text \<open>
  The capacity estimate in the words of the specification: the peak number of successes
  per bucket, times the minimum latency in seconds, divided by the bucket duration in
  seconds (the window in seconds divided by the number of buckets).
\<close>

definition capacity_estimate :: "int \<Rightarrow> int \<Rightarrow> int \<Rightarrow> int \<Rightarrow> real" where
  "capacity_estimate peak minRT_ms window_ns nbuckets =
     real_of_int peak * (real_of_int minRT_ms / 1000)
       / (real_of_int window_ns / 1000000000 / real_of_int nbuckets)"

text \<open>
  \<open>near k x y\<close>: the non-negative \<open>x\<close> and \<open>y\<close> are at most \<open>k\<close> roundings
  apart, each being at least the other times \<open>(1 - 2 ^ -53) ^ k\<close>.
\<close>

definition near :: "nat \<Rightarrow> real \<Rightarrow> real \<Rightarrow> bool" where
  "near k x y =
     (0 \<le> x \<and> 0 \<le> y \<and> y * (1 - 1 / 2 ^ 53) ^ k \<le> x \<and> x * (1 - 1 / 2 ^ 53) ^ k \<le> y)"

text \<open>
  The limiter states reached from \<open>l0\<close> by admission checks and by completions with a
  status outside 200..299, that is, without any recorded success.
\<close>

inductive cold :: "bbrLimiter \<Rightarrow> bbrLimiter \<Rightarrow> bool" for l0 :: bbrLimiter where
  cold_start: "cold l0 l0"
| cold_Allow: "cold l0 l \<Longrightarrow> Allow l reading tSince tNow tStart = Inr (res, l') \<Longrightarrow> cold l0 l'"
| cold_done: "cold l0 l \<Longrightarrow> \<not> (status \<ge> 200 \<and> status \<le> 299)
               \<Longrightarrow> done_cb l cb status tDone tsPass tsRt = (e, l') \<Longrightarrow> cold l0 l'"

subsection \<open>Concrete states\<close>

text \<open>A clock reading \<open>n\<close> nanoseconds after the epoch, on both clocks.\<close>

definition clock :: "int \<Rightarrow> Time" where
  "clock n = \<lparr> wall = n, mono = n \<rparr>"

text \<open>
  The limiter that \<open>Server(WithWindow(time.Second), WithBuckets(2), WithCPUThreshold(0.5),
  WithCPU(f))\<close> builds at clock reading 0.
\<close>

definition demo_conf :: options where
  "demo_conf =
     \<lparr> Window = 1000000000, Buckets = 2, CPUThreshold = Fin 0.5, CPU = Some (userCPU 0),
       CPUInterval = 500000000 \<rparr>"

definition demo_counter :: "bool \<Rightarrow> rollingCounter" where
  "demo_counter m =
     \<lparr> buckets = [if m then MaxInt64 else 0, if m then MaxInt64 else 0],
       window = 1000000000, bucketDur = 500000000, lastUpdate = clock 0, isMin = m \<rparr>"

definition demo_limiter :: bbrLimiter where
  "demo_limiter =
     \<lparr> conf = demo_conf, inflight = 0, passStat = demo_counter False,
       rtStat = demo_counter True, lastDrop = None, cpu = Some (userCPU 0) \<rparr>"

text \<open>
  The counters and the limiter that \<open>Server()\<close> builds at clock reading 0 with the
  default options.
\<close>

definition default_counter :: "bool \<Rightarrow> rollingCounter" where
  "default_counter m =
     \<lparr> buckets = replicate 100 (if m then MaxInt64 else 0),
       window = 10000000000, bucketDur = 100000000, lastUpdate = clock 0, isMin = m \<rparr>"

definition default_limiter :: bbrLimiter where
  "default_limiter =
     \<lparr> conf = defaultOptions, inflight = 0, passStat = default_counter False,
       rtStat = default_counter True, lastDrop = None, cpu = Some defaultCPU \<rparr>"

text \<open>
  That limiter after one request that was admitted at 0 and completed with status 200 at
  300ms, and with three requests in flight: the success is in bucket 3 of \<open>passStat\<close>
  and its latency of 300ms in bucket 3 of \<open>rtStat\<close>.
\<close>

definition warm_limiter :: bbrLimiter where
  "warm_limiter =
     default_limiter
       \<lparr> inflight := 3,
         passStat := (default_counter False)
                       \<lparr> buckets := (replicate 100 0)[3 := 1],
                         lastUpdate := clock 300000000 \<rparr>,
         rtStat := (default_counter True)
                     \<lparr> buckets := (replicate 100 MaxInt64)[3 := 300],
                       lastUpdate := clock 300000000 \<rparr> \<rparr>"

text \<open>
  The counters and the limiter of \<open>Server(WithWindow(50))\<close>, a window of 50 nanoseconds
  over the default 100 buckets: the bucket duration \<open>50 / 100\<close> is 0.
\<close>

definition tiny_counter :: "bool \<Rightarrow> rollingCounter" where
  "tiny_counter m =
     \<lparr> buckets = replicate 100 (if m then MaxInt64 else 0),
       window = 50, bucketDur = 0, lastUpdate = clock 0, isMin = m \<rparr>"

definition tiny_limiter :: bbrLimiter where
  "tiny_limiter =
     \<lparr> conf = \<lparr> Window = 50, Buckets = 100, CPUThreshold = Fin (round64 0.8),
                CPU = Some defaultCPU,
                CPUInterval = 500000000 \<rparr>,
       inflight = 0, passStat = tiny_counter False, rtStat = tiny_counter True,
       lastDrop = None, cpu = Some defaultCPU \<rparr>"

section \<open>Rounding to \<open>float64\<close>\<close>

lemma rne_err: "\<bar>of_int (rne y) - y\<bar> \<le> 1 / 2"
proof -
  have "of_int \<lfloor>y\<rfloor> \<le> y" "y < of_int \<lfloor>y\<rfloor> + 1" by linarith+
  then show ?thesis by (auto simp: rne_def Let_def)
qed

lemma floor_bitlen_bounds:
  assumes "1 \<le> (y::real)"
  shows "2 powi (bitlen \<lfloor>y\<rfloor> - 1) \<le> y \<and> y < 2 powi (bitlen \<lfloor>y\<rfloor>)"
proof -
  define n where "n = \<lfloor>y\<rfloor>"
  have n: "0 < n" using assms by (simp add: n_def)
  have b: "1 \<le> bitlen n" using n by (simp add: bitlen_alt_def)
  from bitlen_bounds [OF n] have lo: "2 ^ nat (bitlen n - 1) \<le> n" and hi: "n < 2 ^ nat (bitlen n)"
    by simp_all
  have "real_of_int (2 ^ nat (bitlen n - 1)) \<le> real_of_int n"
    using lo by (rule iffD2 [OF of_int_le_iff])
  then have "(2::real) ^ nat (bitlen n - 1) \<le> real_of_int n" by simp
  moreover have "real_of_int n \<le> y" by (simp add: n_def)
  ultimately have "(2::real) ^ nat (bitlen n - 1) \<le> y" by linarith
  then have 1: "2 powi (bitlen n - 1) \<le> y" using b by (simp add: power_int_def)
  have "n + 1 \<le> 2 ^ nat (bitlen n)" using hi by linarith
  then have "real_of_int (n + 1) \<le> real_of_int (2 ^ nat (bitlen n))"
    by (rule iffD2 [OF of_int_le_iff])
  then have "real_of_int (n + 1) \<le> (2::real) ^ nat (bitlen n)" by simp
  moreover have "y < real_of_int (n + 1)" unfolding n_def by linarith
  ultimately have "y < (2::real) ^ nat (bitlen n)" by linarith
  then have 2: "y < 2 powi (bitlen n)" using b by (simp add: power_int_def)
  show ?thesis using 1 2 by (simp add: n_def)
qed

lemma expo_bounds:
  assumes "0 < x"
  shows "2 powi (expo x) \<le> x \<and> x < 2 powi (expo x + 1)"
proof (cases "1 \<le> x")
  case True
  with floor_bitlen_bounds [OF True] show ?thesis by (simp add: expo_def)
next
  case False
  define c where "c = bitlen \<lfloor>1 / x\<rfloor>"
  have y: "1 \<le> 1 / x" using assms False by simp
  from floor_bitlen_bounds [OF y] have lo: "2 powi (c - 1) \<le> 1 / x" and hi: "1 / x < 2 powi c"
    by (simp_all add: c_def)
  have p: "0 < (2::real) powi c" "0 < (2::real) powi (c - 1)" by simp_all
  from hi have a: "2 powi (- c) < x"
    using assms p(1) by (simp add: power_int_minus field_simps)
  from lo have b: "x \<le> 2 powi (1 - c)"
  proof -
    have "2 powi (c - 1) * x \<le> 1" using lo assms by (simp add: field_simps)
    then have "x \<le> 1 / 2 powi (c - 1)" using p(2) by (simp add: field_simps)
    also have "1 / 2 powi (c - 1) = (2::real) powi (1 - c)"
      using power_int_minus [of "2::real" "c - 1"] by (simp add: divide_inverse)
    finally show ?thesis .
  qed
  have ex: "expo x = (if x = 2 powi (1 - c) then 1 - c else - c)"
    using False by (simp add: expo_def c_def Let_def)
  show ?thesis
  proof (cases "x = 2 powi (1 - c)")
    case True
    have "(2::real) powi (1 - c) < 2 powi (1 - c + 1)"
      by (intro power_int_strict_increasing) simp_all
    then have "x < 2 powi (1 - c + 1)" "2 powi (1 - c) \<le> x" using True by simp_all
    moreover have "expo x = 1 - c" using ex True by simp
    ultimately show ?thesis by simp
  next
    case ne: False
    with b have "x < 2 powi (- c + 1)" by simp
    moreover have "expo x = - c" using ex ne by simp
    ultimately show ?thesis using a by simp
  qed
qed

lemma round64_zero [simp]: "round64 0 = 0"
  by (simp add: round64_def)

lemma round64_err: "\<bar>round64 x - x\<bar> \<le> \<bar>x\<bar> / 2 ^ 53"
proof (cases "x = 0")
  case True
  then show ?thesis by simp
next
  case False
  define e where "e = expo \<bar>x\<bar> - 52"
  define y where "y = \<bar>x\<bar> / 2 powi e"
  have pos: "0 < \<bar>x\<bar>" using False by simp
  have pe: "0 < (2::real) powi e" by simp
  from expo_bounds [OF pos] have lo: "2 powi (e + 52) \<le> \<bar>x\<bar>" by (simp add: e_def)
  have r: "round64 x = sgn x * of_int (rne y) * 2 powi e"
    using False by (simp add: round64_def e_def y_def Let_def)
  have x: "x = sgn x * y * 2 powi e"
    using pe by (simp add: y_def sgn_real_def abs_real_def)
  have "round64 x - x = sgn x * (of_int (rne y) - y) * 2 powi e"
    by (subst r, subst (2) x) (simp add: algebra_simps)
  then have "\<bar>round64 x - x\<bar> = \<bar>of_int (rne y) - y\<bar> * 2 powi e"
    using False by (simp add: abs_mult sgn_real_def)
  also have "\<dots> \<le> 1 / 2 * 2 powi e"
    using rne_err [of y] pe by (intro mult_right_mono) simp_all
  also have "1 / 2 * 2 powi e = (2::real) powi (e + 52) / 2 ^ 53"
    by (simp add: power_int_add)
  also have "\<dots> \<le> \<bar>x\<bar> / 2 ^ 53" using lo by (simp add: divide_right_mono)
  finally show ?thesis .
qed

lemma q_pos: "0 < (1 - 1 / 2 ^ 53 :: real)" "(1 - 1 / 2 ^ 53 :: real) \<le> 1"
  by simp_all

lemma round64_lower: "0 \<le> x \<Longrightarrow> x * (1 - 1 / 2 ^ 53) \<le> round64 x"
  using round64_err [of x] by (simp add: algebra_simps abs_if split: if_splits)

lemma round64_upper: "0 \<le> x \<Longrightarrow> round64 x \<le> x * (1 + 1 / 2 ^ 53)"
  using round64_err [of x] by (simp add: algebra_simps abs_if split: if_splits)

lemma round64_nonneg: "0 \<le> x \<Longrightarrow> 0 \<le> round64 x"
proof -
  assume x: "0 \<le> x"
  have "0 \<le> x * (1 - 1 / 2 ^ 53)" using x by (intro mult_nonneg_nonneg) simp_all
  with round64_lower [OF x] show ?thesis by linarith
qed

lemma round64_pos: "0 < x \<Longrightarrow> 0 < round64 x"
proof -
  assume x: "0 < x"
  have "0 < x * (1 - 1 / 2 ^ 53)" using x by (intro mult_pos_pos) simp_all
  with round64_lower [of x] x show ?thesis by linarith
qed

lemma near_round: "0 \<le> x \<Longrightarrow> near 1 (round64 x) x"
proof -
  assume x: "0 \<le> x"
  have "round64 x * (1 - 1 / 2 ^ 53) \<le> x * (1 + 1 / 2 ^ 53) * (1 - 1 / 2 ^ 53)"
    using round64_upper [OF x] by (intro mult_right_mono) simp_all
  also have "\<dots> = x * (1 - (1 / 2 ^ 53)\<^sup>2)" by (simp add: algebra_simps power2_eq_square)
  also have "\<dots> \<le> x * 1" using x by (intro mult_left_mono) simp_all
  finally show ?thesis using x round64_lower [OF x] round64_nonneg [OF x] by (simp add: near_def)
qed

lemma near_refl: "0 \<le> x \<Longrightarrow> near 0 x x"
  by (simp add: near_def)

lemma near_trans:
  assumes "near j x y" and "near k y z"
  shows "near (j + k) x z"
proof -
  let ?q = "1 - 1 / 2 ^ 53 :: real"
  have q: "0 \<le> ?q ^ j" "0 \<le> ?q ^ k" by simp_all
  have "z * ?q ^ (j + k) = (z * ?q ^ k) * ?q ^ j" by (simp add: power_add algebra_simps)
  also have "\<dots> \<le> y * ?q ^ j" using assms(2) q by (intro mult_right_mono) (simp_all add: near_def)
  also have "\<dots> \<le> x" using assms(1) by (simp add: near_def)
  finally have 1: "z * ?q ^ (j + k) \<le> x" .
  have "x * ?q ^ (j + k) = (x * ?q ^ j) * ?q ^ k" by (simp add: power_add algebra_simps)
  also have "\<dots> \<le> y * ?q ^ k" using assms(1) q by (intro mult_right_mono) (simp_all add: near_def)
  also have "\<dots> \<le> z" using assms(2) by (simp add: near_def)
  finally have 2: "x * ?q ^ (j + k) \<le> z" .
  show ?thesis using assms 1 2 by (simp add: near_def)
qed

lemma near_mult:
  assumes "near j x y" and "near k x' y'"
  shows "near (j + k) (x * x') (y * y')"
proof -
  let ?q = "1 - 1 / 2 ^ 53 :: real"
  have q: "0 \<le> ?q ^ j" "0 \<le> ?q ^ k" by simp_all
  have n: "0 \<le> x" "0 \<le> y" "0 \<le> x'" "0 \<le> y'" using assms by (simp_all add: near_def)
  have "y * y' * ?q ^ (j + k) = (y * ?q ^ j) * (y' * ?q ^ k)" by (simp add: power_add algebra_simps)
  also have "\<dots> \<le> x * x'"
    using assms n q by (intro mult_mono) (simp_all add: near_def)
  finally have 1: "y * y' * ?q ^ (j + k) \<le> x * x'" .
  have "x * x' * ?q ^ (j + k) = (x * ?q ^ j) * (x' * ?q ^ k)" by (simp add: power_add algebra_simps)
  also have "\<dots> \<le> y * y'"
    using assms n q by (intro mult_mono) (simp_all add: near_def)
  finally have 2: "x * x' * ?q ^ (j + k) \<le> y * y'" .
  show ?thesis using n 1 2 by (simp add: near_def)
qed

lemma near_inverse:
  assumes "near k x y" and "0 < x" and "0 < y"
  shows "near k (1 / x) (1 / y)"
proof -
  let ?q = "1 - 1 / 2 ^ 53 :: real"
  have "y * ?q ^ k \<le> x" "x * ?q ^ k \<le> y" using assms(1) by (simp_all add: near_def)
  then have "1 / y * ?q ^ k \<le> 1 / x" "1 / x * ?q ^ k \<le> 1 / y"
    using assms(2,3) by (simp_all add: field_simps)
  then show ?thesis using assms(2,3) by (simp add: near_def)
qed

lemma near_divide:
  assumes "near j x y" and "near k x' y'" and "0 < x'" and "0 < y'"
  shows "near (j + k) (x / x') (y / y')"
  using near_mult [OF assms(1) near_inverse [OF assms(2,3,4)]] by simp

lemma near_bound:
  assumes "near 9 x y"
  shows "\<bar>x - y\<bar> \<le> y / 2 ^ 49"
proof -
  let ?q = "1 - 1 / 2 ^ 53 :: real"
  have A: "1 - 1 / 2 ^ 49 \<le> ?q ^ 9"
    by (simp add: power_numeral_reduce field_simps)
  have B: "1 \<le> ?q ^ 9 * (1 + 1 / 2 ^ 49)"
    by (simp add: power_numeral_reduce field_simps)
  have n: "0 \<le> x" "0 \<le> y" "y * ?q ^ 9 \<le> x" "x * ?q ^ 9 \<le> y"
    using assms by (simp_all add: near_def)
  have "y * (1 - 1 / 2 ^ 49) \<le> y * ?q ^ 9" using A n(2) by (rule mult_left_mono)
  with n(3) have lo: "y - y / 2 ^ 49 \<le> x" by (simp add: algebra_simps)
  have "x * 1 \<le> x * (?q ^ 9 * (1 + 1 / 2 ^ 49))" using B n(1) by (rule mult_left_mono)
  also have "\<dots> = (x * ?q ^ 9) * (1 + 1 / 2 ^ 49)" by (simp only: mult.assoc)
  also have "\<dots> \<le> y * (1 + 1 / 2 ^ 49)" using n(4) by (intro mult_right_mono) simp_all
  finally have hi: "x \<le> y + y / 2 ^ 49" by (simp add: algebra_simps)
  from lo hi show ?thesis by (simp add: abs_if)
qed


lemma float64_not_less: "a \<le> b \<Longrightarrow> \<not> b < (a :: float64)"
  by (simp add: less_float64_def less_eq_float64_def)



lemma mul64_Fin: "0 \<le> x \<Longrightarrow> 0 \<le> y \<Longrightarrow> mul64 (Fin x) (Fin y) = Fin (round64 (x * y))"
  by (auto simp: mul64_def zero64_def inf64_def signed_zero_def)

lemma div64_Fin: "0 \<le> x \<Longrightarrow> 0 < y \<Longrightarrow> div64 (Fin x) (Fin y) = Fin (round64 (x / y))"
  by (auto simp: div64_def zero64_def inf64_def signed_zero_def)
section \<open>Arithmetic of the machine operations\<close>

lemma rem64_nonneg: "0 \<le> a \<Longrightarrow> 0 < n \<Longrightarrow> rem64 a n = a mod n"
  by (cases "a = 0") (simp_all add: rem64_def smod_int_alt_def)

lemma quo64_nonneg: "0 \<le> a \<Longrightarrow> 0 < b \<Longrightarrow> quo64 a b = a div b"
  by (cases "a = 0") (simp_all add: quo64_def signed_divide_int_def MinInt64_def)

lemma fold_max_step_sum: "fold (max_step False) bs m = Max (insert m (set bs))"
proof (induction bs arbitrary: m)
  case Nil
  then show ?case by simp
next
  case (Cons b bs)
  have "Max (insert (max_step False b m) (set bs)) = Max (insert m (insert b (set bs)))"
    by (cases "set bs = {}") (auto simp: max_step_def max_def Max_insert)
  with Cons show ?case by simp
qed

lemma min_step_hit: "0 < v \<Longrightarrow> v \<noteq> MaxInt64 \<Longrightarrow> min_step v (m, f) = (min v m, True)"
  by (simp add: min_step_def min_def)

lemma min_step_miss: "\<not> (0 < v \<and> v \<noteq> MaxInt64) \<Longrightarrow> min_step v s = s"
  by (auto simp: min_step_def)

lemma fold_min_step:
  "fold min_step bs (m, f) =
     (Min (insert m (qualifying bs)), f \<or> qualifying bs \<noteq> {})"
proof (induction bs arbitrary: m f)
  case Nil
  then show ?case by (simp add: qualifying_def)
next
  case (Cons b bs)
  have fin: "finite (qualifying bs)" by (simp add: qualifying_def)
  show ?case
  proof (cases "0 < b \<and> b \<noteq> MaxInt64")
    case True
    then have q: "qualifying (b # bs) = insert b (qualifying bs)"
      by (auto simp: qualifying_def)
    have m: "Min (insert (min b m) (qualifying bs)) = Min (insert m (insert b (qualifying bs)))"
      using fin by (cases "qualifying bs = {}") (auto simp: min_def)
    have "fold min_step (b # bs) (m, f) = fold min_step bs (min b m, True)"
      using True by (simp add: min_step_hit)
    also have "\<dots> = (Min (insert (min b m) (qualifying bs)), True)"
      by (simp only: Cons.IH) simp
    finally show ?thesis using m q by simp
  next
    case False
    then have q: "qualifying (b # bs) = qualifying bs"
      by (auto simp: qualifying_def)
    have "fold min_step (b # bs) (m, f) = fold min_step bs (m, f)"
      using False by (simp add: min_step_miss)
    then show ?thesis using q Cons.IH by simp
  qed
qed

lemma Min_rc_eq:
  assumes "\<forall>v \<in> set (buckets c). v \<le> MaxInt64"
  shows "Min_rc c = (if qualifying (buckets c) = {} then 1 else Min (qualifying (buckets c)))"
proof -
  have fin: "finite (qualifying (buckets c))" by (simp add: qualifying_def)
  have le: "\<forall>v \<in> qualifying (buckets c). v \<le> MaxInt64"
    using assms by (auto simp: qualifying_def)
  show ?thesis
  proof (cases "qualifying (buckets c) = {}")
    case True
    then show ?thesis by (simp add: Min_rc_def fold_min_step)
  next
    case False
    then have "Min (qualifying (buckets c)) \<le> MaxInt64"
      using fin le Min_in by blast
    moreover have "Min (insert MaxInt64 (qualifying (buckets c))) = min MaxInt64 (Min (qualifying (buckets c)))"
      using fin False by (rule Min_insert)
    ultimately have "Min (insert MaxInt64 (qualifying (buckets c))) = Min (qualifying (buckets c))"
      by (simp add: min_def)
    with False show ?thesis by (simp add: Min_rc_def fold_min_step)
  qed
qed

section \<open>The clearing loop and rotation\<close>

lemma clearLoop_length: "length (snd (clearLoop li m i k bs)) = length bs"
  by (induction k arbitrary: i bs) (simp_all add: Let_def)

lemma clearLoop_set:
  "set (snd (clearLoop li m i k bs)) \<subseteq> insert (if m then MaxInt64 else 0) (set bs)"
proof (induction k arbitrary: i bs)
  case 0
  then show ?case by auto
next
  case (Suc k)
  define e where "e = (if m then MaxInt64 else 0)"
  define idx where "idx = rem64 (li + i) (int (length bs))"
  show ?case
  proof (cases "idx < 0 \<or> int (length bs) \<le> idx")
    case True
    then have "clearLoop li m i (Suc k) bs = (Some IndexOutOfRange, bs)"
      by (simp add: Let_def idx_def)
    then show ?thesis by auto
  next
    case False
    then have step: "clearLoop li m i (Suc k) bs = clearLoop li m (i + 1) k (bs[nat idx := e])"
      by (simp add: Let_def idx_def e_def)
    have "set (snd (clearLoop li m (i + 1) k (bs[nat idx := e]))) \<subseteq> insert e (set (bs[nat idx := e]))"
      unfolding e_def by (rule Suc.IH)
    moreover have "set (bs[nat idx := e]) \<subseteq> insert e (set bs)"
      by (rule set_update_subset_insert)
    ultimately have "set (snd (clearLoop li m (i + 1) k (bs[nat idx := e]))) \<subseteq> insert e (set bs)"
      by blast
    then show ?thesis unfolding step e_def .
  qed
qed

lemma clearLoop_ok:
  "0 \<le> li \<Longrightarrow> 0 \<le> i \<Longrightarrow> bs \<noteq> [] \<Longrightarrow> fst (clearLoop li m i k bs) = None"
proof (induction k arbitrary: i bs)
  case 0
  then show ?case by simp
next
  case (Suc k)
  have n: "0 < int (length bs)" using Suc.prems by simp
  have r: "rem64 (li + i) (int (length bs)) = (li + i) mod int (length bs)"
    using Suc.prems n by (simp add: rem64_nonneg)
  have "0 \<le> (li + i) mod int (length bs)" "(li + i) mod int (length bs) < int (length bs)"
    using n by simp_all
  moreover have "fst (clearLoop li m (i + 1) k (bs[nat ((li + i) mod int (length bs)) := (if m then MaxInt64 else 0)])) = None"
    using Suc.prems by (intro Suc.IH) simp_all
  ultimately show ?case using r by (simp add: Let_def)
qed

lemma clearLoop_nth:
  "0 \<le> li + i \<Longrightarrow> p < length bs \<Longrightarrow>
     snd (clearLoop li m i k bs) ! p =
       (if \<exists>t<k. nat ((li + i + int t) mod int (length bs)) = p
        then (if m then MaxInt64 else 0) else bs ! p)"
proof (induction k arbitrary: i bs)
  case 0
  then show ?case by simp
next
  case (Suc k)
  let ?n = "int (length bs)"
  let ?e = "if m then MaxInt64 else 0"
  let ?idx = "(li + i) mod ?n"
  let ?bs' = "bs[nat ?idx := ?e]"
  have n: "0 < ?n" using Suc.prems by (cases bs) simp_all
  have r: "rem64 (li + i) ?n = ?idx"
    using Suc.prems n by (simp add: rem64_nonneg)
  have rng: "0 \<le> ?idx" "?idx < ?n" using n by simp_all
  have step: "clearLoop li m i (Suc k) bs = clearLoop li m (i + 1) k ?bs'"
    using r rng by (simp add: Let_def)
  have IH: "snd (clearLoop li m (i + 1) k ?bs') ! p =
       (if \<exists>t<k. nat ((li + (i + 1) + int t) mod int (length ?bs')) = p then ?e else ?bs' ! p)"
    using Suc.prems by (intro Suc.IH) simp_all
  have ex: "(\<exists>t<Suc k. nat ((li + i + int t) mod ?n) = p) =
            (nat ?idx = p \<or> (\<exists>t<k. nat ((li + (i + 1) + int t) mod ?n) = p))"
  proof
    assume "\<exists>t<Suc k. nat ((li + i + int t) mod ?n) = p"
    then obtain t where t: "t < Suc k" "nat ((li + i + int t) mod ?n) = p" by blast
    show "nat ?idx = p \<or> (\<exists>t<k. nat ((li + (i + 1) + int t) mod ?n) = p)"
    proof (cases t)
      case 0
      with t show ?thesis by simp
    next
      case (Suc t')
      with t have "t' < k" "nat ((li + (i + 1) + int t') mod ?n) = p"
        by (simp_all add: algebra_simps)
      then show ?thesis by blast
    qed
  next
    assume "nat ?idx = p \<or> (\<exists>t<k. nat ((li + (i + 1) + int t) mod ?n) = p)"
    then show "\<exists>t<Suc k. nat ((li + i + int t) mod ?n) = p"
    proof
      assume "nat ?idx = p"
      then have "nat ((li + i + int 0) mod ?n) = p" by simp
      then show ?thesis by blast
    next
      assume "\<exists>t<k. nat ((li + (i + 1) + int t) mod ?n) = p"
      then obtain t where "t < k" "nat ((li + (i + 1) + int t) mod ?n) = p" by blast
      then have "Suc t < Suc k" "nat ((li + i + int (Suc t)) mod ?n) = p"
        by (simp_all add: algebra_simps)
      then show ?thesis by blast
    qed
  qed
  have upd: "?bs' ! p = (if nat ?idx = p then ?e else bs ! p)"
    using Suc.prems by (simp add: nth_list_update)
  show ?case unfolding step using IH ex upd by auto
qed

lemma clearLoop_full:
  assumes "0 \<le> li + i" and "length bs \<le> k"
  shows "snd (clearLoop li m i k bs) = replicate (length bs) (if m then MaxInt64 else 0)"
proof (rule nth_equalityI)
  show "length (snd (clearLoop li m i k bs)) = length (replicate (length bs) (if m then MaxInt64 else 0))"
    by (simp add: clearLoop_length)
next
  fix p assume "p < length (snd (clearLoop li m i k bs))"
  then have p: "p < length bs" by (simp add: clearLoop_length)
  let ?n = "int (length bs)"
  have n: "0 < ?n" using p by (cases bs) simp_all
  define t where "t = nat ((int p - (li + i)) mod ?n)"
  have "(int p - (li + i)) mod ?n < ?n" "0 \<le> (int p - (li + i)) mod ?n" using n by simp_all
  then have "t < length bs" unfolding t_def by linarith
  then have tk: "t < k" using assms(2) by simp
  have "(li + i + int t) mod ?n = (li + i + (int p - (li + i)) mod ?n) mod ?n"
    using n by (simp add: t_def)
  also have "\<dots> = (li + i + (int p - (li + i))) mod ?n"
    by (simp add: mod_add_right_eq)
  also have "\<dots> = int p" using p by simp
  finally have "nat ((li + i + int t) mod ?n) = p" by simp
  with tk have "\<exists>t<k. nat ((li + i + int t) mod ?n) = p" by blast
  then show "snd (clearLoop li m i k bs) ! p = replicate (length bs) (if m then MaxInt64 else 0) ! p"
    using assms(1) p by (simp add: clearLoop_nth)
qed

lemma bucketIndex_range:
  assumes "buckets c \<noteq> []" and "0 < bucketDur c" and "0 \<le> wall t"
  shows "0 \<le> bucketIndex c t \<and> bucketIndex c t < int (length (buckets c))"
proof -
  have n: "0 < int (length (buckets c))" using assms(1) by simp
  have q: "quo64 (wall t) (bucketDur c) = wall t div bucketDur c"
    using assms by (simp add: quo64_nonneg)
  have "0 \<le> wall t div bucketDur c"
    using assms by (simp add: pos_imp_zdiv_nonneg_iff)
  then have "bucketIndex c t = (wall t div bucketDur c) mod int (length (buckets c))"
    using n q by (simp add: bucketIndex_def UnixNano_def rem64_nonneg)
  then show ?thesis using n by simp
qed

lemma rotate_rc_None:
  assumes "rotate_rc c now = (None, c')"
  shows "isMin c' = isMin c \<and> bucketDur c' = bucketDur c \<and> window c' = window c
       \<and> length (buckets c') = length (buckets c)
       \<and> set (buckets c') \<subseteq> insert (if isMin c then MaxInt64 else 0) (set (buckets c))
       \<and> (lastUpdate c' = lastUpdate c \<or> lastUpdate c' = now)"
proof (cases "Sub now (lastUpdate c) < bucketDur c")
  case True
  with assms have "c' = c" by (simp add: rotate_rc_def)
  then show ?thesis by auto
next
  case False
  define n where "n = int (length (buckets c))"
  define q where "q = quo64 (Sub now (lastUpdate c)) (bucketDur c)"
  define k where "k = nat (if q > n then n else q)"
  define li where "li = rem64 (quo64 (UnixNano (lastUpdate c)) (bucketDur c)) n"
  define res where "res = clearLoop li (isMin c) 1 k (buckets c)"
  have nz: "bucketDur c \<noteq> 0" "n \<noteq> 0"
    using assms False by (auto simp: rotate_rc_def Let_def n_def split: if_splits)
  have unf: "rotate_rc c now =
      (case res of (Some e, bs) \<Rightarrow> (Some e, c\<lparr>buckets := bs\<rparr>)
                 | (None, bs) \<Rightarrow> (None, c\<lparr>buckets := bs, lastUpdate := now\<rparr>))"
    using False nz by (simp add: rotate_rc_def Let_def n_def q_def k_def li_def res_def)
  obtain e bs where res: "res = (e, bs)" by (cases res)
  with assms unf have e: "e = None" and c': "c' = c\<lparr>buckets := bs, lastUpdate := now\<rparr>"
    by (auto split: option.splits)
  have "length bs = length (buckets c)"
    using clearLoop_length [of li "isMin c" 1 k "buckets c"] res by (simp add: res_def)
  moreover have "set bs \<subseteq> insert (if isMin c then MaxInt64 else 0) (set (buckets c))"
    using clearLoop_set [of li "isMin c" 1 k "buckets c"] res by (simp add: res_def)
  ultimately show ?thesis using c' by simp
qed

lemma rotate_rc_total:
  assumes "rc_ok c"
  shows "fst (rotate_rc c now) = None"
proof (cases "Sub now (lastUpdate c) < bucketDur c")
  case True
  then show ?thesis by (simp add: rotate_rc_def)
next
  case False
  define n where "n = int (length (buckets c))"
  define q where "q = quo64 (Sub now (lastUpdate c)) (bucketDur c)"
  define k where "k = nat (if q > n then n else q)"
  define li where "li = rem64 (quo64 (UnixNano (lastUpdate c)) (bucketDur c)) n"
  define res where "res = clearLoop li (isMin c) 1 k (buckets c)"
  have nz: "bucketDur c \<noteq> 0" "n \<noteq> 0"
    using assms by (auto simp: rc_ok_def n_def)
  have unf: "rotate_rc c now =
      (case res of (Some e, bs) \<Rightarrow> (Some e, c\<lparr>buckets := bs\<rparr>)
                 | (None, bs) \<Rightarrow> (None, c\<lparr>buckets := bs, lastUpdate := now\<rparr>))"
    using False nz by (simp add: rotate_rc_def Let_def n_def q_def k_def li_def res_def)
  have "0 \<le> li"
    using bucketIndex_range [of c "lastUpdate c"] assms
    by (simp add: rc_ok_def bucketIndex_def li_def n_def)
  then have "fst res = None"
    using assms unfolding res_def by (intro clearLoop_ok) (simp_all add: rc_ok_def)
  then show ?thesis unfolding unf by (cases res) auto
qed

lemma rotate_rc_full:
  assumes "rc_ok c" and "bucketDur c * int (length (buckets c)) \<le> Sub now (lastUpdate c)"
  shows "rotate_rc c now =
           (None, c\<lparr>buckets := replicate (length (buckets c)) (if isMin c then MaxInt64 else 0),
                     lastUpdate := now\<rparr>)"
proof -
  define n where "n = int (length (buckets c))"
  define q where "q = quo64 (Sub now (lastUpdate c)) (bucketDur c)"
  define k where "k = nat (if q > n then n else q)"
  define li where "li = rem64 (quo64 (UnixNano (lastUpdate c)) (bucketDur c)) n"
  define res where "res = clearLoop li (isMin c) 1 k (buckets c)"
  have pos: "0 < bucketDur c" "0 < n"
    using assms(1) by (auto simp: rc_ok_def n_def)
  have "bucketDur c * 1 \<le> bucketDur c * n" using pos by (intro mult_left_mono) simp_all
  then have ge: "bucketDur c \<le> Sub now (lastUpdate c)" using assms(2) by (simp add: n_def)
  then have False: "\<not> Sub now (lastUpdate c) < bucketDur c" by simp
  have unf: "rotate_rc c now =
      (case res of (Some e, bs) \<Rightarrow> (Some e, c\<lparr>buckets := bs\<rparr>)
                 | (None, bs) \<Rightarrow> (None, c\<lparr>buckets := bs, lastUpdate := now\<rparr>))"
    using False pos by (simp add: rotate_rc_def Let_def n_def q_def k_def li_def res_def)
  have li: "0 \<le> li"
    using bucketIndex_range [of c "lastUpdate c"] assms(1)
    by (simp add: rc_ok_def bucketIndex_def li_def n_def)
  then have ok: "fst res = None"
    using assms(1) unfolding res_def by (intro clearLoop_ok) (simp_all add: rc_ok_def)
  have "0 \<le> Sub now (lastUpdate c)" using ge pos by simp
  then have "q = Sub now (lastUpdate c) div bucketDur c"
    using pos by (simp add: q_def quo64_nonneg)
  moreover have "(bucketDur c * n) div bucketDur c \<le> Sub now (lastUpdate c) div bucketDur c"
    using assms(2) pos unfolding n_def by (intro zdiv_mono1) simp_all
  then have "n \<le> Sub now (lastUpdate c) div bucketDur c"
    using pos by simp
  ultimately have "n \<le> q" by simp
  then have "k = length (buckets c)" by (auto simp: k_def n_def)
  then have "snd res = replicate (length (buckets c)) (if isMin c then MaxInt64 else 0)"
    using li unfolding res_def by (intro clearLoop_full) simp_all
  with ok show ?thesis unfolding unf by (cases res) auto
qed

section \<open>Adding to a counter\<close>

lemma wrap64_id: "is_int64 x \<Longrightarrow> wrap64 x = x"
  by (simp add: wrap64_def is_int64_def MinInt64_def MaxInt64_def)

lemma Add_None:
  assumes "Add c v tRot tIdx = (None, c')"
  shows "\<exists>r. rotate_rc c tRot = (None, r) \<and> 0 \<le> bucketIndex r tIdx
            \<and> bucketIndex r tIdx < int (length (buckets r)) \<and> c' = Add_write r v tIdx"
proof -
  obtain e r where rot: "rotate_rc c tRot = (e, r)" by (cases "rotate_rc c tRot")
  with assms have e: "e = None" by (auto simp: Add_def split: option.splits)
  from assms rot e show ?thesis
    by (auto simp: Add_def Add_write_def bucketIndex_def Let_def split: if_splits)
qed

lemma Add_total:
  assumes "rc_ok c" and "0 \<le> wall tIdx"
  shows "fst (Add c v tRot tIdx) = None"
proof -
  obtain e r where rot: "rotate_rc c tRot = (e, r)" by (cases "rotate_rc c tRot")
  with rotate_rc_total [OF assms(1), of tRot] have e: "e = None" by simp
  from rotate_rc_None [of c tRot r] rot e
  have r: "bucketDur r = bucketDur c" "length (buckets r) = length (buckets c)" by simp_all
  then have ne: "buckets r \<noteq> []" "0 < bucketDur r"
    using assms(1) by (auto simp: rc_ok_def)
  from bucketIndex_range [OF ne assms(2)]
  have "0 \<le> bucketIndex r tIdx" "bucketIndex r tIdx < int (length (buckets r))" by simp_all
  then show ?thesis using rot e ne
    by (auto simp: Add_def Let_def bucketIndex_def)
qed

lemma Add_rc_ok:
  assumes "rc_ok c" and "0 \<le> wall tRot" and "Add c v tRot tIdx = (None, c')"
  shows "rc_ok c'"
proof -
  from Add_None [OF assms(3)] obtain r where
    r: "rotate_rc c tRot = (None, r)" "c' = Add_write r v tIdx" by blast
  from rotate_rc_None [OF r(1)] assms(1,2) have "rc_ok r"
    by (auto simp: rc_ok_def)
  then show ?thesis using r(2) by (auto simp: rc_ok_def Add_write_def Let_def)
qed

lemma newRollingCounter_Inr:
  assumes "newRollingCounter w n m t0 = Inr c"
  shows "0 < n \<and> buckets c = replicate (nat n) (if m then MaxInt64 else 0)
       \<and> window c = w \<and> bucketDur c = quo64 w n \<and> lastUpdate c = t0 \<and> isMin c = m"
  using assms by (auto simp: newRollingCounter_def split: if_splits)

lemma newRollingCounter_rc_ok:
  assumes "newRollingCounter w n m t0 = Inr c" and "n \<le> w" and "0 \<le> wall t0"
  shows "rc_ok c"
proof -
  from newRollingCounter_Inr [OF assms(1)] have c: "0 < n" "buckets c = replicate (nat n) (if m then MaxInt64 else 0)"
    "bucketDur c = quo64 w n" "lastUpdate c = t0" by simp_all
  have "quo64 w n = w div n" using c(1) assms(2) by (simp add: quo64_nonneg)
  moreover have "0 < w div n" using c(1) assms(2) by (simp add: pos_imp_zdiv_pos_iff)
  ultimately show ?thesis using c assms(3) by (simp add: rc_ok_def)
qed

lemma set_replicate_update:
  assumes "set bs \<subseteq> {e}" and "i < length bs"
  shows "set (bs[i := v]) \<subseteq> {e, v} \<and> v \<in> set (bs[i := v])"
proof -
  have "set (bs[i := v]) \<subseteq> insert v (set bs)" by (rule set_update_subset_insert)
  moreover have "v \<in> set (bs[i := v])" using assms(2) by (rule set_update_memI)
  ultimately show ?thesis using assms(1) by auto
qed

lemma qualifying_between:
  assumes "v \<in> set bs" and "0 < v" and "v \<noteq> MaxInt64"
      and "set bs \<subseteq> insert MaxInt64 S" and "\<forall>x \<in> S. v \<le> x"
      and "\<forall>x \<in> set bs. x \<le> MaxInt64"
  shows "fold min_step bs (MaxInt64, False) = (v, True)"
proof -
  have fin: "finite (qualifying bs)" by (simp add: qualifying_def)
  have v: "v \<in> qualifying bs" using assms(1-3) by (simp add: qualifying_def)
  have le: "\<forall>x \<in> qualifying bs. v \<le> x" using assms(4,5) by (auto simp: qualifying_def)
  have "v \<le> MaxInt64" using assms(1,6) by blast
  then have "Min (insert MaxInt64 (qualifying bs)) = v"
    using fin v le by (intro Min_eqI) auto
  with v show ?thesis by (auto simp: fold_min_step)
qed

lemma Min_rc_fresh:
  assumes "newRollingCounter w n True t0 = Inr c"
  shows "Min_rc c = 1"
proof -
  from newRollingCounter_Inr [OF assms] have "buckets c = replicate (nat n) MaxInt64" by simp
  then have "qualifying (buckets c) = {}" by (auto simp: qualifying_def)
  then show ?thesis by (simp add: Min_rc_def fold_min_step)
qed

lemma Max_rc_fresh:
  assumes "newRollingCounter w n False t0 = Inr c"
  shows "Max_rc c = 0"
proof -
  from newRollingCounter_Inr [OF assms] have c: "buckets c = replicate (nat n) 0" "isMin c = False" "0 < n"
    by simp_all
  have "Max_rc c = Max (insert 0 (set (buckets c)))"
    using c(2) by (simp add: Max_rc_def fold_max_step_sum)
  moreover have "insert 0 (set (buckets c)) = {0}" using c(1,3) by auto
  ultimately show ?thesis by simp
qed

lemma Add_min_set:
  assumes "Add c v tRot tIdx = (None, c')" and "isMin c"
      and "set (buckets c) \<subseteq> insert MaxInt64 S" and "v < MaxInt64" and "\<forall>x \<in> S. v < x"
  shows "isMin c' \<and> v \<in> set (buckets c') \<and> set (buckets c') \<subseteq> insert MaxInt64 (insert v S)"
proof -
  from Add_None [OF assms(1)] obtain r where
    r: "rotate_rc c tRot = (None, r)" "0 \<le> bucketIndex r tIdx"
       "bucketIndex r tIdx < int (length (buckets r))" "c' = Add_write r v tIdx" by blast
  from rotate_rc_None [OF r(1)] assms(2,3)
  have rr: "isMin r" "set (buckets r) \<subseteq> insert MaxInt64 S" by auto
  define idx where "idx = nat (bucketIndex r tIdx)"
  have idx: "idx < length (buckets r)" using r(2,3) by (simp add: idx_def)
  then have "buckets r ! idx \<in> set (buckets r)" by simp
  with rr(2) assms(4,5) have lt: "v < buckets r ! idx" by auto
  then have c': "c' = r\<lparr>buckets := (buckets r)[idx := v]\<rparr>"
    using r(4) rr(1) by (simp add: Add_write_def idx_def Let_def)
  have "set ((buckets r)[idx := v]) \<subseteq> insert v (set (buckets r))"
    by (rule set_update_subset_insert)
  moreover have "v \<in> set ((buckets r)[idx := v])" using idx by (rule set_update_memI)
  ultimately show ?thesis using c' rr by auto
qed

lemma fresh_min_examples:
  assumes "newRollingCounter w n True t0 = Inr c"
  shows "Min_rc c = 1"
    and "Add c 5 tRot1 tIdx1 = (None, c1) \<Longrightarrow> Min_rc c1 = 5"
    and "Add c 5 tRot1 tIdx1 = (None, c1) \<Longrightarrow> Add c1 3 tRot2 tIdx2 = (None, c2) \<Longrightarrow> Min_rc c2 = 3"
proof -
  show "Min_rc c = 1" using assms by (rule Min_rc_fresh)
  from newRollingCounter_Inr [OF assms]
  have c: "isMin c" "set (buckets c) \<subseteq> insert MaxInt64 {}" by auto
  {
    assume a1: "Add c 5 tRot1 tIdx1 = (None, c1)"
    from Add_min_set [OF a1 c] have c1: "isMin c1" "5 \<in> set (buckets c1)"
      "set (buckets c1) \<subseteq> insert MaxInt64 {5}"
      by (simp_all add: MaxInt64_def)
    have "fold min_step (buckets c1) (MaxInt64, False) = (5, True)"
      using c1 by (intro qualifying_between [where S = "{5}"]) (auto simp: MaxInt64_def)
    then show "Min_rc c1 = 5" by (simp add: Min_rc_def)
    assume a2: "Add c1 3 tRot2 tIdx2 = (None, c2)"
    from Add_min_set [OF a2 c1(1,3)] have c2: "3 \<in> set (buckets c2)"
      "set (buckets c2) \<subseteq> insert MaxInt64 {3, 5}"
      by (simp_all add: MaxInt64_def)
    have "fold min_step (buckets c2) (MaxInt64, False) = (3, True)"
      using c2 by (intro qualifying_between [where S = "{3, 5}"]) (auto simp: MaxInt64_def)
    then show "Min_rc c2 = 3" by (simp add: Min_rc_def)
  }
qed

lemma Add_eq:
  assumes "rotate_rc c tRot = (None, r)" and "buckets r \<noteq> []" and "0 < bucketDur r"
      and "0 \<le> wall tIdx"
  shows "Add c v tRot tIdx = (None, Add_write r v tIdx)"
proof -
  from bucketIndex_range [OF assms(2,3,4)]
  have "0 \<le> bucketIndex r tIdx" "bucketIndex r tIdx < int (length (buckets r))" by simp_all
  then show ?thesis using assms(1,2,3)
    by (auto simp: Add_def Add_write_def Let_def bucketIndex_def)
qed

lemma Max_rc_write_zeros:
  assumes "\<not> isMin r" and "set (buckets r) \<subseteq> {0}"
      and "0 \<le> bucketIndex r t" and "bucketIndex r t < int (length (buckets r))"
      and "0 \<le> v" and "v \<le> MaxInt64"
  shows "Max_rc (Add_write r v t) = v"
proof -
  define idx where "idx = nat (bucketIndex r t)"
  have idx: "idx < length (buckets r)" using assms(3,4) by (simp add: idx_def)
  then have "buckets r ! idx \<in> set (buckets r)" by simp
  with assms(2) have z: "buckets r ! idx = 0" by auto
  have "is_int64 v" using assms(5,6) by (simp add: is_int64_def MinInt64_def)
  then have w: "Add_write r v t = r\<lparr>buckets := (buckets r)[idx := v]\<rparr>"
    using assms(1) z by (simp add: Add_write_def idx_def Let_def wrap64_id)
  from set_replicate_update [OF assms(2) idx, of v]
  have s: "set ((buckets r)[idx := v]) \<subseteq> {0, v}" "v \<in> set ((buckets r)[idx := v])"
    by simp_all
  have "Max_rc (Add_write r v t) = Max (insert 0 (set ((buckets r)[idx := v])))"
    using assms(1) by (simp add: w Max_rc_def fold_max_step_sum)
  also have "\<dots> = v"
  proof (rule Max_eqI)
    show "finite (insert 0 (set ((buckets r)[idx := v])))" by simp
    show "\<And>y. y \<in> insert 0 (set ((buckets r)[idx := v])) \<Longrightarrow> y \<le> v"
      using s(1) assms(5) by auto
    show "v \<in> insert 0 (set ((buckets r)[idx := v]))" using s(2) by simp
  qed
  finally show ?thesis .
qed

lemma Sub_antimono: "mono u \<le> mono u' \<Longrightarrow> Sub t u' \<le> Sub t u"
  by (simp add: Sub_def Let_def MaxInt64_def MinInt64_def)

lemma Add_write_frame:
  "lastUpdate (Add_write r v t) = lastUpdate r \<and> bucketDur (Add_write r v t) = bucketDur r
   \<and> isMin (Add_write r v t) = isMin r \<and> window (Add_write r v t) = window r
   \<and> length (buckets (Add_write r v t)) = length (buckets r)"
  by (simp add: Add_write_def Let_def)

section \<open>The capacity estimate in \<open>float64\<close>\<close>

lemma rne_of_int [simp]: "rne (of_int k) = k"
  by (simp add: rne_def)

lemma round64_int_exact:
  assumes "\<bar>k\<bar> \<le> 2 ^ 53"
  shows "round64 (real_of_int k) = real_of_int k"
proof (cases "k = 0")
  case True
  then show ?thesis by simp
next
  case False
  define x where "x = \<bar>real_of_int k\<bar>"
  define e where "e = expo x - 52"
  have x: "0 < x" "x \<le> 2 ^ 53" using False assms by (simp_all add: x_def)
  from expo_bounds [OF x(1)] have lo: "2 powi (expo x) \<le> x" by simp
  have "expo x \<le> 53"
  proof (rule ccontr)
    assume "\<not> expo x \<le> 53"
    then have "(2::real) powi 54 \<le> 2 powi (expo x)" by (intro power_int_increasing) simp_all
    with lo x(2) show False by simp
  qed
  then have e: "e \<le> 1" by (simp add: e_def)
  have r: "round64 (real_of_int k) = sgn (real_of_int k) * of_int (rne (x / 2 powi e)) * 2 powi e"
    using False by (simp add: round64_def x_def e_def Let_def)
  show ?thesis
  proof (cases "e \<le> 0")
    case True
    have "x / 2 powi e = x * 2 ^ nat (- e)"
      using True by (simp add: power_int_def field_simps)
    also have "\<dots> = real_of_int (\<bar>k\<bar> * 2 ^ nat (- e))" by (simp add: x_def)
    finally have "rne (x / 2 powi e) = \<bar>k\<bar> * 2 ^ nat (- e)" by (simp only: rne_of_int)
    then have "of_int (rne (x / 2 powi e)) * 2 powi e = x"
      using True by (simp add: power_int_def x_def field_simps)
    then have "round64 (real_of_int k) = sgn (real_of_int k) * x" using r by (simp add: mult.assoc)
    then show ?thesis by (simp add: x_def sgn_real_def)
  next
    case nz: False
    with e have e1: "e = 1" by simp
    then have "expo x = 53" by (simp add: e_def)
    with lo x(2) have "x = 2 ^ 53" by simp
    then have "x / 2 powi e = real_of_int (2 ^ 52)" using e1 by simp
    then have "rne (x / 2 powi e) = 2 ^ 52" by (simp only: rne_of_int)
    then have "of_int (rne (x / 2 powi e)) * 2 powi e = x"
      using e1 \<open>x = 2 ^ 53\<close> by simp
    then have "round64 (real_of_int k) = sgn (real_of_int k) * x" using r by (simp add: mult.assoc)
    then show ?thesis by (simp add: x_def sgn_real_def)
  qed
qed

lemma Max_rc_nonneg: "0 \<le> Max_rc c"
proof -
  have "m \<le> fold (max_step b) bs m" for b bs m
  proof (induction bs arbitrary: m)
    case Nil
    show ?case by simp
  next
    case (Cons a bs)
    have "m \<le> max_step b a m" by (simp add: max_step_def)
    also have "\<dots> \<le> fold (max_step b) bs (max_step b a m)" by (rule Cons.IH)
    finally show ?case by simp
  qed
  then show ?thesis unfolding Max_rc_def by blast
qed

lemma Min_rc_pos: "1 \<le> Min_rc c"
proof (cases "qualifying (buckets c) = {}")
  case True
  then show ?thesis by (simp add: Min_rc_def fold_min_step)
next
  case False
  have fin: "finite (insert MaxInt64 (qualifying (buckets c)))" by (simp add: qualifying_def)
  have "Min (insert MaxInt64 (qualifying (buckets c))) \<in> insert MaxInt64 (qualifying (buckets c))"
    using fin by (intro Min_in) simp_all
  then have "0 < Min (insert MaxInt64 (qualifying (buckets c)))"
    by (auto simp: qualifying_def MaxInt64_def)
  with False show ?thesis by (simp add: Min_rc_def fold_min_step)
qed

lemma round64_Second: "round64 (real_of_int Second) = 1000000000"
  by code_simp

lemma near_round_of: "near k x y \<Longrightarrow> n = Suc k \<Longrightarrow> near n (round64 x) y"
  using near_trans [OF near_round, of x k y] by (simp add: near_def)

lemma near_mult_eq:
  "near j x y \<Longrightarrow> near k x' y' \<Longrightarrow> n = j + k \<Longrightarrow> near n (x * x') (y * y')"
  using near_mult by simp

lemma near_divide_eq:
  "near j x y \<Longrightarrow> near k x' y' \<Longrightarrow> 0 < x' \<Longrightarrow> 0 < y' \<Longrightarrow> n = j + k
     \<Longrightarrow> near n (x / x') (y / y')"
  using near_divide by simp

lemma maxInflight_Fin:
  assumes "0 < Window (conf l)" and "0 < Buckets (conf l)"
  shows "maxInflight l
           = Fin (round64 (round64 (round64 (round64 (real_of_int (Max_rc (passStat l)))
                                              * round64 (real_of_int (Min_rc (rtStat l))))
                                    / 1000)
                           / round64 (round64 (round64 (real_of_int (Window (conf l)))
                                                / round64 (real_of_int (Buckets (conf l))))
                                       / 1000000000)))"
proof -
  define M where "M = round64 (real_of_int (Max_rc (passStat l)))"
  define R where "R = round64 (real_of_int (Min_rc (rtStat l)))"
  define W where "W = round64 (real_of_int (Window (conf l)))"
  define N where "N = round64 (real_of_int (Buckets (conf l)))"
  have M: "0 \<le> M" unfolding M_def using Max_rc_nonneg [of "passStat l"]
    by (intro round64_nonneg) simp
  have R: "0 \<le> R" unfolding R_def using Min_rc_pos [of "rtStat l"]
    by (intro round64_nonneg) simp
  have W: "0 < W" and N: "0 < N" unfolding W_def N_def using assms
    by (simp_all add: round64_pos)
  have x: "0 \<le> round64 (round64 (M * R) / 1000)"
    using M R by (intro round64_nonneg divide_nonneg_nonneg mult_nonneg_nonneg) simp_all
  have g: "0 < round64 (W / N)" using W N by (intro round64_pos) simp
  then have h: "0 < round64 (round64 (W / N) / 1000000000)" by (intro round64_pos) simp
  have bd: "div64 (div64 (Fin W) (Fin N)) (Fin 1000000000)
              = Fin (round64 (round64 (W / N) / 1000000000))"
    using W N g by (simp add: div64_Fin)
  have nu: "div64 (mul64 (Fin M) (Fin R)) (Fin 1000) = Fin (round64 (round64 (M * R) / 1000))"
    using M R by (simp add: mul64_Fin div64_Fin round64_nonneg)
  show ?thesis
    unfolding maxInflight_def Let_def of_int64_def round64_Second
      M_def [symmetric] R_def [symmetric] W_def [symmetric] N_def [symmetric] bd nu
    using x h by (rule div64_Fin)
qed

lemma maxInflight_near:
  assumes "0 < Window (conf l)" and "0 < Buckets (conf l)"
  shows "near 9 (val64 (maxInflight l))
           (capacity_estimate (Max_rc (passStat l)) (Min_rc (rtStat l))
              (Window (conf l)) (Buckets (conf l)))"
proof -
  define M where "M = real_of_int (Max_rc (passStat l))"
  define R where "R = real_of_int (Min_rc (rtStat l))"
  define W where "W = real_of_int (Window (conf l))"
  define N where "N = real_of_int (Buckets (conf l))"
  have M: "0 \<le> M" using Max_rc_nonneg [of "passStat l"] by (simp add: M_def)
  have R: "0 < R" using Min_rc_pos [of "rtStat l"] by (simp add: R_def)
  have W: "0 < W" and N: "0 < N" using assms by (simp_all add: W_def N_def)
  have a: "near 1 (round64 M) M" using M by (rule near_round)
  have b: "near 1 (round64 R) R" using R by (intro near_round) simp
  have "near 2 (round64 M * round64 R) (M * R)" by (rule near_mult_eq [OF a b]) simp
  then have c: "near 3 (round64 (round64 M * round64 R)) (M * R)"
    by (rule near_round_of) simp
  have k: "near 0 (1000::real) 1000" by (simp add: near_def)
  have "near 3 (round64 (round64 M * round64 R) / 1000) (M * R / 1000)"
    by (rule near_divide_eq [OF c k]) simp_all
  then have d: "near 4 (round64 (round64 (round64 M * round64 R) / 1000)) (M * R / 1000)"
    by (rule near_round_of) simp
  have w: "near 1 (round64 W) W" using W by (intro near_round) simp
  have n: "near 1 (round64 N) N" using N by (intro near_round) simp
  have "near 2 (round64 W / round64 N) (W / N)"
    by (rule near_divide_eq [OF w n round64_pos [OF N] N]) simp
  then have g: "near 3 (round64 (round64 W / round64 N)) (W / N)"
    by (rule near_round_of) simp
  have s: "near 0 (1000000000::real) 1000000000" by (simp add: near_def)
  have "near 3 (round64 (round64 W / round64 N) / 1000000000) (W / N / 1000000000)"
    by (rule near_divide_eq [OF g s]) simp_all
  then have h: "near 4 (round64 (round64 (round64 W / round64 N) / 1000000000))
                  (W / N / 1000000000)"
    by (rule near_round_of) simp
  have gp: "0 < round64 (round64 W / round64 N)"
    using round64_pos [OF W] round64_pos [OF N] by (intro round64_pos) simp
  have hp: "0 < round64 (round64 (round64 W / round64 N) / 1000000000)"
    using gp by (intro round64_pos) simp
  have ep: "0 < W / N / 1000000000" using W N by simp
  have "near 8 (round64 (round64 (round64 M * round64 R) / 1000)
                  / round64 (round64 (round64 W / round64 N) / 1000000000))
               (M * R / 1000 / (W / N / 1000000000))"
    by (rule near_divide_eq [OF d h hp ep]) simp
  then have "near 9 (round64 (round64 (round64 (round64 M * round64 R) / 1000)
                  / round64 (round64 (round64 W / round64 N) / 1000000000)))
               (M * R / 1000 / (W / N / 1000000000))"
    by (rule near_round_of) simp
  moreover have "M * R / 1000 / (W / N / 1000000000)
       = capacity_estimate (Max_rc (passStat l)) (Min_rc (rtStat l))
              (Window (conf l)) (Buckets (conf l))"
    by (simp add: capacity_estimate_def M_def R_def W_def N_def)
  ultimately show ?thesis
    by (simp add: maxInflight_Fin [OF assms] M_def R_def W_def N_def)
qed

section \<open>The capacity estimate and the cooldown\<close>

text \<open>
  C1, as amended. In every limiter state whose configuration has a positive window and
  bucket count, \<open>maxInflight()\<close> is the \<open>float64\<close> evaluation of
  \<open>passStat.Max()\<close> times \<open>rtStat.Min()\<close>, divided by 1000 and by the bucket
  duration in seconds (\<open>Window\<close> divided by \<open>Buckets\<close> and by \<open>10^9\<close>), every
  conversion, the product and each quotient rounded to \<open>float64\<close>. It is a number,
  and differs from the exact quotient \<open>capacity_estimate\<close> by at most that quotient
  times \<open>2^-49\<close>.
  The limiter keeps no copy of it: the verdict of \<open>shouldDrop\<close>, on the paths that
  reach the comparison, is the comparison of the in-flight count, converted to
  \<open>float64\<close>, with the estimate computed from the two counters as they are at that
  call.
\<close>

theorem maxInflight_float64:
  assumes "0 < Window (conf l)" and "0 < Buckets (conf l)" and "cpu l \<noteq> None"
  shows "maxInflight l
           = Fin (round64 (round64 (round64 (round64 (real_of_int (Max_rc (passStat l)))
                                              * round64 (real_of_int (Min_rc (rtStat l))))
                                    / 1000)
                           / round64 (round64 (round64 (real_of_int (Window (conf l)))
                                                / round64 (real_of_int (Buckets (conf l))))
                                       / 1000000000)))
       \<and> \<bar>val64 (maxInflight l)
            - capacity_estimate (Max_rc (passStat l)) (Min_rc (rtStat l))
                (Window (conf l)) (Buckets (conf l))\<bar>
           \<le> capacity_estimate (Max_rc (passStat l)) (Min_rc (rtStat l))
                (Window (conf l)) (Buckets (conf l)) / 2 ^ 49
       \<and> (\<exists>b l'. shouldDrop l reading tSince tNow = Inr (b, l')
              \<and> b = (\<not> (reading < CPUThreshold (conf l)
                          \<and> (case lastDrop l of None \<Rightarrow> True
                              | Some d \<Rightarrow> Sub tSince d > Second))
                     \<and> 1 < inflight l
                     \<and> of_int64 (inflight l) > maxInflight l))"
proof -
  have eq: "maxInflight l
           = Fin (round64 (round64 (round64 (round64 (real_of_int (Max_rc (passStat l)))
                                              * round64 (real_of_int (Min_rc (rtStat l))))
                                    / 1000)
                           / round64 (round64 (round64 (real_of_int (Window (conf l)))
                                                / round64 (real_of_int (Buckets (conf l))))
                                       / 1000000000)))"
    using assms(1,2) by (rule maxInflight_Fin)
  have bound: "\<bar>val64 (maxInflight l)
            - capacity_estimate (Max_rc (passStat l)) (Min_rc (rtStat l))
                (Window (conf l)) (Buckets (conf l))\<bar>
           \<le> capacity_estimate (Max_rc (passStat l)) (Min_rc (rtStat l))
                (Window (conf l)) (Buckets (conf l)) / 2 ^ 49"
    using maxInflight_near [OF assms(1,2)] by (rule near_bound)
  have verdict: "\<exists>b l'. shouldDrop l reading tSince tNow = Inr (b, l')
              \<and> b = (\<not> (reading < CPUThreshold (conf l)
                          \<and> (case lastDrop l of None \<Rightarrow> True
                              | Some d \<Rightarrow> Sub tSince d > Second))
                     \<and> 1 < inflight l
                     \<and> of_int64 (inflight l) > maxInflight l)"
    using assms(3) by (auto simp: shouldDrop_def Let_def split: option.splits)
  from eq bound verdict show ?thesis by (intro conjI)
qed

theorem maxInflight_float64_witness:
  "0 < Window (conf (demo_limiter\<lparr>inflight := 5,
         passStat := (demo_counter False)\<lparr>buckets := [3, 7]\<rparr>,
         rtStat := (demo_counter True)\<lparr>buckets := [MaxInt64, 20]\<rparr>\<rparr>))
   \<and> 0 < Buckets (conf (demo_limiter\<lparr>inflight := 5,
         passStat := (demo_counter False)\<lparr>buckets := [3, 7]\<rparr>,
         rtStat := (demo_counter True)\<lparr>buckets := [MaxInt64, 20]\<rparr>\<rparr>))
   \<and> cpu (demo_limiter\<lparr>inflight := 5,
         passStat := (demo_counter False)\<lparr>buckets := [3, 7]\<rparr>,
         rtStat := (demo_counter True)\<lparr>buckets := [MaxInt64, 20]\<rparr>\<rparr>) \<noteq> None
   \<and> maxInflight (demo_limiter\<lparr>inflight := 5,
         passStat := (demo_counter False)\<lparr>buckets := [3, 7]\<rparr>,
         rtStat := (demo_counter True)\<lparr>buckets := [MaxInt64, 20]\<rparr>\<rparr>)
       = Fin (1261007895663739 / 4503599627370496)
   \<and> \<bar>1261007895663739 / 4503599627370496 - 7 / 25\<bar> \<le> (7 / 25 :: real) / 2 ^ 49
   \<and> fst (projr (shouldDrop (demo_limiter\<lparr>inflight := 5,
         passStat := (demo_counter False)\<lparr>buckets := [3, 7]\<rparr>,
         rtStat := (demo_counter True)\<lparr>buckets := [MaxInt64, 20]\<rparr>\<rparr>)
         (Fin 0.75) (clock 5) (clock 6))) = True"
proof -
  define l where "l = demo_limiter\<lparr>inflight := 5,
         passStat := (demo_counter False)\<lparr>buckets := [3, 7]\<rparr>,
         rtStat := (demo_counter True)\<lparr>buckets := [MaxInt64, 20]\<rparr>\<rparr>"
  have h: "0 < Window (conf l)" "0 < Buckets (conf l)" "cpu l \<noteq> None"
    by (simp_all add: l_def demo_limiter_def demo_conf_def)
  have m: "maxInflight l = Fin (1261007895663739 / 4503599627370496)"
    unfolding l_def by code_simp
  have c: "capacity_estimate (Max_rc (passStat l)) (Min_rc (rtStat l))
             (Window (conf l)) (Buckets (conf l)) = 7 / 25"
    unfolding l_def by code_simp
  have i: "of_int64 (inflight l) = Fin 5"
    unfolding l_def by code_simp
  have t: "\<not> Fin 0.75 < CPUThreshold (conf l)"
    by (simp add: l_def demo_limiter_def demo_conf_def less_float64_def)
  from maxInflight_float64 [OF h, where reading = "Fin 0.75" and tSince = "clock 5"
      and tNow = "clock 6"]
  have "\<bar>val64 (maxInflight l) - 7 / 25\<bar> \<le> (7 / 25 :: real) / 2 ^ 49"
    and "\<exists>b l'. shouldDrop l (Fin 0.75) (clock 5) (clock 6) = Inr (b, l')
            \<and> b = (\<not> (Fin 0.75 < CPUThreshold (conf l)
                        \<and> (case lastDrop l of None \<Rightarrow> True
                            | Some d \<Rightarrow> Sub (clock 5) d > Second))
                   \<and> 1 < inflight l
                   \<and> of_int64 (inflight l) > maxInflight l)"
    unfolding c by blast+
  then have "\<bar>1261007895663739 / 4503599627370496 - 7 / 25\<bar> \<le> (7 / 25 :: real) / 2 ^ 49"
    and "fst (projr (shouldDrop l (Fin 0.75) (clock 5) (clock 6))) = True"
    unfolding m i using t by (auto simp: l_def less_float64_def)
  with h m show ?thesis unfolding l_def [symmetric] by simp
qed

text \<open>
  C1 as stated fails: the value is not always the exact quotient, and the difference
  decides admissions. \<open>Server()\<close> builds the default limiter (10s, 100 buckets) at
  clock reading 0; a request is admitted and completes with status 200 after 300ms, and
  three more are admitted. Then \<open>Max()\<close> is 1 and \<open>Min()\<close> is 300, the exact
  quotient is \<open>1 * 0.3 / 0.1 = 3\<close>, and \<open>maxInflight()\<close> is
  \<open>3 - 2^-51 = 2.9999999999999996\<close>, because neither \<open>300 / 1000\<close> nor the
  bucket duration \<open>0.1\<close> is a \<open>float64\<close>. The in-flight count 3 is not above 3,
  but \<open>shouldDrop\<close> rejects.
\<close>

theorem maxInflight_below_exact_estimate:
  "fst (Server_limiter [] 500000000 (clock 0) (clock 0)) = Inr default_limiter
   \<and> Allow default_limiter (Fin 0.25) (clock 0) (clock 0) (clock 0)
       = Inr ((Some (Callback (clock 0)), None), default_limiter\<lparr>inflight := 1\<rparr>)
   \<and> done_cb (default_limiter\<lparr>inflight := 1\<rparr>) (Callback (clock 0)) 200 (clock 300000000)
         (clock 300000000, clock 300000000) (clock 300000000, clock 300000000)
       = (None, warm_limiter\<lparr>inflight := 0\<rparr>)
   \<and> Allow (warm_limiter\<lparr>inflight := 0\<rparr>) (Fin 0.875) (clock 300000000) (clock 300000000)
         (clock 300000000)
       = Inr ((Some (Callback (clock 300000000)), None), warm_limiter\<lparr>inflight := 1\<rparr>)
   \<and> Allow (warm_limiter\<lparr>inflight := 1\<rparr>) (Fin 0.875) (clock 300000000) (clock 300000000)
         (clock 300000000)
       = Inr ((Some (Callback (clock 300000000)), None), warm_limiter\<lparr>inflight := 2\<rparr>)
   \<and> Allow (warm_limiter\<lparr>inflight := 2\<rparr>) (Fin 0.875) (clock 300000000) (clock 300000000)
         (clock 300000000)
       = Inr ((Some (Callback (clock 300000000)), None), warm_limiter)
   \<and> Max_rc (passStat warm_limiter) = 1 \<and> Min_rc (rtStat warm_limiter) = 300
   \<and> capacity_estimate (Max_rc (passStat warm_limiter)) (Min_rc (rtStat warm_limiter))
         (Window (conf warm_limiter)) (Buckets (conf warm_limiter)) = 3
   \<and> maxInflight warm_limiter = Fin (3 - 1 / 2 ^ 51)
   \<and> val64 (maxInflight warm_limiter)
       \<noteq> capacity_estimate (Max_rc (passStat warm_limiter)) (Min_rc (rtStat warm_limiter))
           (Window (conf warm_limiter)) (Buckets (conf warm_limiter))
   \<and> \<not> real_of_int (inflight warm_limiter)
         > capacity_estimate (Max_rc (passStat warm_limiter)) (Min_rc (rtStat warm_limiter))
             (Window (conf warm_limiter)) (Buckets (conf warm_limiter))
   \<and> shouldDrop warm_limiter (Fin 0.875) (clock 400000000) (clock 400000000)
       = Inr (True, warm_limiter\<lparr>lastDrop := Some (clock 400000000)\<rparr>)"
proof -
  have s: "fst (Server_limiter [] 500000000 (clock 0) (clock 0)) = Inr default_limiter"
    by code_simp
  have a0: "Allow default_limiter (Fin 0.25) (clock 0) (clock 0) (clock 0)
       = Inr ((Some (Callback (clock 0)), None), default_limiter\<lparr>inflight := 1\<rparr>)"
    by code_simp
  have d: "done_cb (default_limiter\<lparr>inflight := 1\<rparr>) (Callback (clock 0)) 200 (clock 300000000)
         (clock 300000000, clock 300000000) (clock 300000000, clock 300000000)
       = (None, warm_limiter\<lparr>inflight := 0\<rparr>)"
    by code_simp
  have a1: "Allow (warm_limiter\<lparr>inflight := 0\<rparr>) (Fin 0.875) (clock 300000000)
         (clock 300000000) (clock 300000000)
       = Inr ((Some (Callback (clock 300000000)), None), warm_limiter\<lparr>inflight := 1\<rparr>)"
    by code_simp
  have a2: "Allow (warm_limiter\<lparr>inflight := 1\<rparr>) (Fin 0.875) (clock 300000000)
         (clock 300000000) (clock 300000000)
       = Inr ((Some (Callback (clock 300000000)), None), warm_limiter\<lparr>inflight := 2\<rparr>)"
    by code_simp
  have a3: "Allow (warm_limiter\<lparr>inflight := 2\<rparr>) (Fin 0.875) (clock 300000000)
         (clock 300000000) (clock 300000000)
       = Inr ((Some (Callback (clock 300000000)), None), warm_limiter)"
    by code_simp
  have mm: "Max_rc (passStat warm_limiter) = 1" "Min_rc (rtStat warm_limiter) = 300"
    by code_simp+
  have w: "Window (conf warm_limiter) = 10000000000" "Buckets (conf warm_limiter) = 100"
          "inflight warm_limiter = 3"
    by code_simp+
  have c: "capacity_estimate (Max_rc (passStat warm_limiter)) (Min_rc (rtStat warm_limiter))
         (Window (conf warm_limiter)) (Buckets (conf warm_limiter)) = 3"
    unfolding mm w by (simp add: capacity_estimate_def)
  have m: "maxInflight warm_limiter = Fin (3 - 1 / 2 ^ 51)"
    by code_simp
  have r: "shouldDrop warm_limiter (Fin 0.875) (clock 400000000) (clock 400000000)
       = Inr (True, warm_limiter\<lparr>lastDrop := Some (clock 400000000)\<rparr>)"
    by code_simp
  have ne: "val64 (maxInflight warm_limiter)
       \<noteq> capacity_estimate (Max_rc (passStat warm_limiter)) (Min_rc (rtStat warm_limiter))
           (Window (conf warm_limiter)) (Buckets (conf warm_limiter))"
    unfolding c m by simp
  have le: "\<not> real_of_int (inflight warm_limiter)
         > capacity_estimate (Max_rc (passStat warm_limiter)) (Min_rc (rtStat warm_limiter))
             (Window (conf warm_limiter)) (Buckets (conf warm_limiter))"
    unfolding c by (simp add: w)
  from s a0 d a1 a2 a3 mm c m ne le r show ?thesis by (intro conjI)
qed

text \<open>
  C4, as amended. Let a rejection be recorded at \<open>d\<close>. An evaluation of
  \<open>shouldDrop\<close> at most one second after \<open>d\<close>, with an in-flight count of at least 2
  that exceeds \<open>maxInflight()\<close>, rejects whatever the CPU reading is (and records the
  new rejection time). The comparison is made on the count converted to \<open>float64\<close>,
  which is the count itself up to \<open>2^53\<close>. An evaluation more than one second after
  \<open>d\<close> with the CPU reading below the threshold clears the marker and allows.
\<close>

theorem cooldown_amended:
  assumes "cpu l \<noteq> None" and "lastDrop l = Some d"
  shows "(Sub tSince d \<le> Second \<and> 2 \<le> inflight l
            \<and> of_int64 (inflight l) > maxInflight l
            \<longrightarrow> shouldDrop l reading tSince tNow = Inr (True, l\<lparr>lastDrop := Some tNow\<rparr>))
       \<and> (Sub tSince d \<le> Second \<and> 2 \<le> inflight l \<and> inflight l \<le> 2 ^ 53
            \<and> Fin (real_of_int (inflight l)) > maxInflight l
            \<longrightarrow> shouldDrop l reading tSince tNow = Inr (True, l\<lparr>lastDrop := Some tNow\<rparr>))
       \<and> (Sub tSince d > Second \<and> reading < CPUThreshold (conf l)
            \<longrightarrow> shouldDrop l reading tSince tNow = Inr (False, l\<lparr>lastDrop := None\<rparr>))"
proof -
  have a: "shouldDrop l reading tSince tNow = Inr (True, l\<lparr>lastDrop := Some tNow\<rparr>)"
    if "Sub tSince d \<le> Second" "2 \<le> inflight l"
       "of_int64 (inflight l) > maxInflight l"
    using assms that by (auto simp: shouldDrop_def Let_def split: option.splits)
  have b: "of_int64 (inflight l) = Fin (real_of_int (inflight l))"
    if "2 \<le> inflight l" "inflight l \<le> 2 ^ 53"
    unfolding of_int64_def using that by (simp add: round64_int_exact)
  have c: "shouldDrop l reading tSince tNow = Inr (False, l\<lparr>lastDrop := None\<rparr>)"
    if "Sub tSince d > Second" "reading < CPUThreshold (conf l)"
    using assms that by (auto simp: shouldDrop_def Let_def split: option.splits)
  from a b c show ?thesis by simp
qed

theorem cooldown_amended_witness:
  "cpu (demo_limiter\<lparr>inflight := 5, lastDrop := Some (clock 0)\<rparr>) \<noteq> None
   \<and> lastDrop (demo_limiter\<lparr>inflight := 5, lastDrop := Some (clock 0)\<rparr>) = Some (clock 0)
   \<and> Sub (clock 500000000) (clock 0) \<le> Second
   \<and> 2 \<le> inflight (demo_limiter\<lparr>inflight := 5, lastDrop := Some (clock 0)\<rparr>)
   \<and> inflight (demo_limiter\<lparr>inflight := 5, lastDrop := Some (clock 0)\<rparr>) \<le> 2 ^ 53
   \<and> of_int64 (inflight (demo_limiter\<lparr>inflight := 5, lastDrop := Some (clock 0)\<rparr>))
       > maxInflight (demo_limiter\<lparr>inflight := 5, lastDrop := Some (clock 0)\<rparr>)
   \<and> Fin (real_of_int (inflight (demo_limiter\<lparr>inflight := 5, lastDrop := Some (clock 0)\<rparr>)))
       > maxInflight (demo_limiter\<lparr>inflight := 5, lastDrop := Some (clock 0)\<rparr>)
   \<and> shouldDrop (demo_limiter\<lparr>inflight := 5, lastDrop := Some (clock 0)\<rparr>) (Fin 0.25)
         (clock 500000000) (clock 500000001)
       = Inr (True, demo_limiter\<lparr>inflight := 5, lastDrop := Some (clock 500000001)\<rparr>)
   \<and> Sub (clock 2000000000) (clock 0) > Second
   \<and> Fin 0.25 < CPUThreshold (conf (demo_limiter\<lparr>inflight := 5, lastDrop := Some (clock 0)\<rparr>))
   \<and> shouldDrop (demo_limiter\<lparr>inflight := 5, lastDrop := Some (clock 0)\<rparr>) (Fin 0.25)
         (clock 2000000000) (clock 2000000001)
       = Inr (False, demo_limiter\<lparr>inflight := 5\<rparr>)"
proof -
  define l where "l = demo_limiter\<lparr>inflight := 5, lastDrop := Some (clock 0)\<rparr>"
  have h: "cpu l \<noteq> None" "lastDrop l = Some (clock 0)"
    by (simp_all add: l_def demo_limiter_def)
  have m: "maxInflight l = Fin 0"
    unfolding l_def by code_simp
  have i: "inflight l = 5"
    by (simp add: l_def)
  have r: "of_int64 (inflight l) = Fin 5"
    unfolding l_def by code_simp
  have a: "Sub (clock 500000000) (clock 0) \<le> Second" "2 \<le> inflight l"
          "inflight l \<le> 2 ^ 53"
          "of_int64 (inflight l) > maxInflight l"
          "Fin (real_of_int (inflight l)) > maxInflight l"
    unfolding m r unfolding i
    by (simp_all add: Sub_def clock_def Second_def MaxInt64_def MinInt64_def less_float64_def)
  have b: "Sub (clock 2000000000) (clock 0) > Second" "Fin 0.25 < CPUThreshold (conf l)"
    by (simp_all add: l_def Sub_def clock_def Second_def MaxInt64_def MinInt64_def
        demo_limiter_def demo_conf_def less_float64_def)
  have e: "l\<lparr>lastDrop := Some (clock 500000001)\<rparr>
             = demo_limiter\<lparr>inflight := 5, lastDrop := Some (clock 500000001)\<rparr>"
          "l\<lparr>lastDrop := None\<rparr> = demo_limiter\<lparr>inflight := 5\<rparr>"
    by (simp_all add: l_def demo_limiter_def)
  from cooldown_amended [OF h, where tSince = "clock 500000000" and tNow = "clock 500000001"
      and reading = "Fin 0.25"]
    cooldown_amended [OF h, where tSince = "clock 2000000000" and tNow = "clock 2000000001"
      and reading = "Fin 0.25"]
    h a b e
  show ?thesis unfolding l_def [symmetric] by simp
qed

text \<open>
  C4 as stated fails at an in-flight count of 1. On a new limiter two requests are
  admitted, a third is rejected at clock reading 0, and one of the two completes with
  status 500: no success is recorded, so \<open>maxInflight()\<close> is 0 and the in-flight
  count 1 is above it. Half a second after the rejection \<open>shouldDrop\<close> allows, by its
  \<open>inflight <= 1\<close> check.
\<close>

theorem cooldown_single_inflight_allows:
  "cold demo_limiter (demo_limiter\<lparr>inflight := 1, lastDrop := Some (clock 0)\<rparr>)
   \<and> lastDrop (demo_limiter\<lparr>inflight := 1, lastDrop := Some (clock 0)\<rparr>) = Some (clock 0)
   \<and> Sub (clock 500000000) (clock 0) \<le> Second
   \<and> maxInflight (demo_limiter\<lparr>inflight := 1, lastDrop := Some (clock 0)\<rparr>) = Fin 0
   \<and> of_int64 (inflight (demo_limiter\<lparr>inflight := 1, lastDrop := Some (clock 0)\<rparr>))
       > maxInflight (demo_limiter\<lparr>inflight := 1, lastDrop := Some (clock 0)\<rparr>)
   \<and> shouldDrop (demo_limiter\<lparr>inflight := 1, lastDrop := Some (clock 0)\<rparr>) (Fin 0.25)
         (clock 500000000) (clock 500000001)
       = Inr (False, demo_limiter\<lparr>inflight := 1, lastDrop := Some (clock 0)\<rparr>)"
proof -
  have a1: "Allow demo_limiter (Fin 0.75) (clock 0) (clock 0) (clock 0)
       = Inr ((Some (Callback (clock 0)), None), demo_limiter\<lparr>inflight := 1\<rparr>)"
    by code_simp
  have a2: "Allow (demo_limiter\<lparr>inflight := 1\<rparr>) (Fin 0.75) (clock 0) (clock 0) (clock 0)
       = Inr ((Some (Callback (clock 0)), None), demo_limiter\<lparr>inflight := 2\<rparr>)"
    by code_simp
  have a3: "Allow (demo_limiter\<lparr>inflight := 2\<rparr>) (Fin 0.75) (clock 0) (clock 0) (clock 0)
       = Inr ((None, Some ErrLimitExceeded),
              demo_limiter\<lparr>inflight := 2, lastDrop := Some (clock 0)\<rparr>)"
    by code_simp
  have d: "done_cb (demo_limiter\<lparr>inflight := 2, lastDrop := Some (clock 0)\<rparr>)
             (Callback (clock 0)) 500 (clock 1) (clock 1, clock 1) (clock 1, clock 1)
       = (None, demo_limiter\<lparr>inflight := 1, lastDrop := Some (clock 0)\<rparr>)"
    by code_simp
  have s: "\<not> ((500 :: int) \<ge> 200 \<and> (500 :: int) \<le> 299)" by simp
  have c: "cold demo_limiter (demo_limiter\<lparr>inflight := 1, lastDrop := Some (clock 0)\<rparr>)"
    by (rule cold_done [OF cold_Allow [OF cold_Allow [OF cold_Allow [OF cold_start a1] a2] a3] s d])
  have l: "lastDrop (demo_limiter\<lparr>inflight := 1, lastDrop := Some (clock 0)\<rparr>) = Some (clock 0)"
          "Sub (clock 500000000) (clock 0) \<le> Second"
    by (simp_all add: Sub_def clock_def Second_def MaxInt64_def MinInt64_def)
  have m: "maxInflight (demo_limiter\<lparr>inflight := 1, lastDrop := Some (clock 0)\<rparr>) = Fin 0"
    by code_simp
  have g: "of_int64 (inflight (demo_limiter\<lparr>inflight := 1, lastDrop := Some (clock 0)\<rparr>))
       > maxInflight (demo_limiter\<lparr>inflight := 1, lastDrop := Some (clock 0)\<rparr>)"
    by code_simp
  have r: "shouldDrop (demo_limiter\<lparr>inflight := 1, lastDrop := Some (clock 0)\<rparr>) (Fin 0.25)
         (clock 500000000) (clock 500000001)
       = Inr (False, demo_limiter\<lparr>inflight := 1, lastDrop := Some (clock 0)\<rparr>)"
    by code_simp
  from c l m g r show ?thesis by (intro conjI)
qed

section \<open>Bucket accounting\<close>

text \<open>
  C2, as amended. Take a fresh sum-mode counter with \<open>n\<close> buckets over a window of
  \<open>w \<ge> n\<close> nanoseconds, created at or after the epoch. One \<open>Add(v)\<close> with
  \<open>0 \<le> v\<close> returns, and \<open>Max()\<close> is then \<open>v\<close>; \<open>Max()\<close> reads no clock and
  does not rotate, so it stays \<open>v\<close> however long the counter is left alone. The window
  expires in \<open>Add\<close>: an \<open>Add(u)\<close> with \<open>0 \<le> u\<close> made more than \<open>w\<close> after the
  first one clears every bucket before it writes, and \<open>Max()\<close> is then \<open>u\<close>.
\<close>

theorem fresh_sum_Max_expiry:
  assumes "newRollingCounter w n False t0 = Inr c"
      and "n \<le> w" and "0 \<le> wall t0" and "0 \<le> wall tIdx"
      and "0 \<le> v" and "v \<le> MaxInt64"
  shows "\<exists>c'. Add c v tRot tIdx = (None, c') \<and> Max_rc c' = v
          \<and> (\<forall>u tRot' tIdx'.
                 0 \<le> u \<and> u \<le> MaxInt64 \<and> mono t0 \<le> mono tRot \<and> 0 \<le> wall tRot
                 \<and> 0 \<le> wall tIdx' \<and> w < Sub tRot' tRot
                 \<longrightarrow> (\<exists>c''. Add c' u tRot' tIdx' = (None, c'') \<and> Max_rc c'' = u))"
proof -
  have ok: "rc_ok c" using assms(1-3) by (rule newRollingCounter_rc_ok)
  from newRollingCounter_Inr [OF assms(1)] have c: "0 < n" "buckets c = replicate (nat n) 0"
    "isMin c = False" "bucketDur c = quo64 w n" "lastUpdate c = t0" by simp_all
  have bd: "bucketDur c = w div n" using c(1,4) assms(2) by (simp add: quo64_nonneg)
  obtain e r where rot: "rotate_rc c tRot = (e, r)" by (cases "rotate_rc c tRot")
  with rotate_rc_total [OF ok, of tRot] have rot: "rotate_rc c tRot = (None, r)" by simp
  from rotate_rc_None [OF rot] c have r: "isMin r = False" "set (buckets r) \<subseteq> {0}"
    "bucketDur r = bucketDur c" "length (buckets r) = nat n"
    "lastUpdate r = t0 \<or> lastUpdate r = tRot" by auto
  have rne: "buckets r \<noteq> []" "0 < bucketDur r"
    using r(3,4) c(1) ok by (auto simp: rc_ok_def)
  define c' where "c' = Add_write r v tIdx"
  have add: "Add c v tRot tIdx = (None, c')"
    unfolding c'_def using rot rne assms(4) by (rule Add_eq)
  from bucketIndex_range [OF rne assms(4)] r(1,2) assms(5,6)
  have mx: "Max_rc c' = v" unfolding c'_def by (intro Max_rc_write_zeros) simp_all
  have fr: "lastUpdate c' = lastUpdate r" "bucketDur c' = bucketDur c" "isMin c' = False"
    "length (buckets c') = nat n"
    using Add_write_frame [of r v tIdx] r by (simp_all add: c'_def)
  have later: "\<exists>c''. Add c' u tRot' tIdx' = (None, c'') \<and> Max_rc c'' = u"
    if h: "0 \<le> u" "u \<le> MaxInt64" "mono t0 \<le> mono tRot" "0 \<le> wall tRot"
          "0 \<le> wall tIdx'" "w < Sub tRot' tRot"
    for u tRot' tIdx'
  proof -
    have ok': "rc_ok c'" using ok h(4) add by (rule Add_rc_ok)
    have "Sub tRot' tRot \<le> Sub tRot' (lastUpdate c')"
      using r(5) fr(1) h(3) by (auto intro: Sub_antimono)
    moreover have "bucketDur c' * int (length (buckets c')) \<le> w"
    proof -
      have "w div n * n + w mod n = w" by simp
      moreover have "0 \<le> w mod n" using c(1) by simp
      ultimately have "w div n * n \<le> w" by linarith
      then show ?thesis using c(1) by (simp add: fr bd)
    qed
    ultimately have full: "bucketDur c' * int (length (buckets c')) \<le> Sub tRot' (lastUpdate c')"
      using h(6) by linarith
    define r' where "r' = c'\<lparr>buckets := replicate (length (buckets c')) 0, lastUpdate := tRot'\<rparr>"
    have rot': "rotate_rc c' tRot' = (None, r')"
      using rotate_rc_full [OF ok' full] fr(3) by (simp add: r'_def)
    have r': "buckets r' \<noteq> []" "0 < bucketDur r'" "\<not> isMin r'" "set (buckets r') \<subseteq> {0}"
      using ok' fr by (auto simp: r'_def rc_ok_def)
    have "Add c' u tRot' tIdx' = (None, Add_write r' u tIdx')"
      using rot' r'(1,2) h(5) by (rule Add_eq)
    moreover from bucketIndex_range [OF r'(1,2) h(5)] r'(3,4) h(1,2)
    have "Max_rc (Add_write r' u tIdx') = u" by (intro Max_rc_write_zeros) simp_all
    ultimately show ?thesis by simp
  qed
  show ?thesis using add mx later by blast
qed

theorem fresh_sum_Max_expiry_witness:
  "newRollingCounter 1000000000 2 False (clock 0) = Inr (demo_counter False)
   \<and> (2 :: int) \<le> 1000000000 \<and> 0 \<le> wall (clock 0) \<and> 0 \<le> wall (clock 1)
   \<and> (0 :: int) \<le> 10 \<and> 10 \<le> MaxInt64
   \<and> Add (demo_counter False) 10 (clock 1) (clock 1)
       = (None, (demo_counter False)\<lparr>buckets := [10, 0]\<rparr>)
   \<and> Max_rc ((demo_counter False)\<lparr>buckets := [10, 0]\<rparr>) = 10
   \<and> (0 :: int) \<le> 5 \<and> 5 \<le> MaxInt64 \<and> mono (clock 0) \<le> mono (clock 1)
   \<and> 0 \<le> wall (clock 1500000002) \<and> 1000000000 < Sub (clock 1500000002) (clock 1)
   \<and> Add ((demo_counter False)\<lparr>buckets := [10, 0]\<rparr>) 5 (clock 1500000002) (clock 1500000002)
       = (None, (demo_counter False)\<lparr>buckets := [0, 5], lastUpdate := clock 1500000002\<rparr>)
   \<and> Max_rc ((demo_counter False)\<lparr>buckets := [0, 5], lastUpdate := clock 1500000002\<rparr>) = 5"
proof -
  have n: "newRollingCounter 1000000000 2 False (clock 0) = Inr (demo_counter False)"
    by code_simp
  have h: "(2 :: int) \<le> 1000000000" "0 \<le> wall (clock 0)" "0 \<le> wall (clock 1)"
          "(0 :: int) \<le> 10" "10 \<le> MaxInt64"
    by (simp_all add: clock_def MaxInt64_def)
  have a1: "Add (demo_counter False) 10 (clock 1) (clock 1)
       = (None, (demo_counter False)\<lparr>buckets := [10, 0]\<rparr>)"
    by code_simp
  have g: "(0 :: int) \<le> 5" "5 \<le> MaxInt64" "mono (clock 0) \<le> mono (clock 1)"
          "0 \<le> wall (clock 1500000002)" "1000000000 < Sub (clock 1500000002) (clock 1)"
    by (simp_all add: clock_def MaxInt64_def MinInt64_def Sub_def)
  have a2: "Add ((demo_counter False)\<lparr>buckets := [10, 0]\<rparr>) 5 (clock 1500000002) (clock 1500000002)
       = (None, (demo_counter False)\<lparr>buckets := [0, 5], lastUpdate := clock 1500000002\<rparr>)"
    by code_simp
  from fresh_sum_Max_expiry [OF n h, where tRot = "clock 1"] a1
  have m1: "Max_rc ((demo_counter False)\<lparr>buckets := [10, 0]\<rparr>) = 10"
   and later: "\<And>u tRot' tIdx'. 0 \<le> u \<and> u \<le> MaxInt64 \<and> mono (clock 0) \<le> mono (clock 1)
          \<and> 0 \<le> wall (clock 1) \<and> 0 \<le> wall tIdx' \<and> 1000000000 < Sub tRot' (clock 1)
          \<Longrightarrow> \<exists>c''. Add ((demo_counter False)\<lparr>buckets := [10, 0]\<rparr>) u tRot' tIdx' = (None, c'')
                  \<and> Max_rc c'' = u"
    by auto
  from later [of 5 "clock 1500000002" "clock 1500000002"] g h a2
  have m2: "Max_rc ((demo_counter False)\<lparr>buckets := [0, 5], lastUpdate := clock 1500000002\<rparr>) = 5"
    by auto
  show ?thesis using n h a1 m1 g a2 m2 by simp
qed

text \<open>
  C2 as stated fails. \<open>Max_rc\<close> takes no clock reading, as \<open>Max()\<close> reads none: the
  value it returns after any delay is the one it returns on the counter that \<open>Add\<close>
  left. After \<open>Add(10)\<close> on a fresh counter (window 1s, 2 buckets) and no further call
  that value is 10, not 0. And \<open>Max()\<close> starts from 0: after \<open>Add(-3)\<close> on the fresh
  counter it returns 0, not -3.
\<close>

theorem Max_unchanged_without_Add:
  "newRollingCounter 1000000000 2 False (clock 0) = Inr (demo_counter False)
   \<and> Add (demo_counter False) 10 (clock 1) (clock 1)
       = (None, (demo_counter False)\<lparr>buckets := [10, 0]\<rparr>)
   \<and> Max_rc ((demo_counter False)\<lparr>buckets := [10, 0]\<rparr>) = 10
   \<and> Max_rc ((demo_counter False)\<lparr>buckets := [10, 0]\<rparr>) \<noteq> 0
   \<and> Add (demo_counter False) (- 3) (clock 1) (clock 1)
       = (None, (demo_counter False)\<lparr>buckets := [- 3, 0]\<rparr>)
   \<and> Max_rc ((demo_counter False)\<lparr>buckets := [- 3, 0]\<rparr>) = 0"
  by code_simp

section \<open>Construction\<close>


lemma init_fields:
  "Window (fst (init o' g)) = (if Window o' \<le> 0 then Second * 10 else Window o')"
  "Buckets (fst (init o' g)) = (if Buckets o' \<le> 0 then 100 else Buckets o')"
  "CPUThreshold (fst (init o' g))
     = (if CPUThreshold o' \<le> Fin 0 then Fin (round64 0.8) else CPUThreshold o')"
  "CPUInterval (fst (init o' g)) = (if CPUInterval o' \<le> 0 then Millisecond * 500 else CPUInterval o')"
  "CPU (fst (init o' g)) = (if CPU o' = None then Some defaultCPU else CPU o')"
  by (simp_all add: init_def Let_def)






section \<open>The completion callback\<close>

text \<open>
  The callback always takes one off \<open>inflight\<close>. With a status outside 200..299 it
  does nothing else. With a status in 200..299, on counters on which \<open>rotate\<close> cannot
  panic and with clock readings at or after the epoch, it returns normally, having added
  1 to the bucket of the rotated \<open>passStat\<close> and merged the elapsed milliseconds into
  the bucket of the rotated \<open>rtStat\<close>.
\<close>

lemma done_cb_inflight:
  "inflight (snd (done_cb l cb status tDone tsPass tsRt)) = wrap64 (inflight l - 1)"
  by (cases cb) (auto simp: done_cb_def Let_def split: prod.splits option.splits)

lemma done_cb_not_success:
  assumes "\<not> (status \<ge> 200 \<and> status \<le> 299)"
  shows "done_cb l cb status tDone tsPass tsRt = (None, l\<lparr>inflight := wrap64 (inflight l - 1)\<rparr>)"
  using assms by (cases cb) (auto simp: done_cb_def Let_def)

lemma done_cb_success:
  assumes "status \<ge> 200" and "status \<le> 299"
      and "rc_ok (passStat l)" and "rc_ok (rtStat l)"
      and "0 \<le> wall (snd tsPass)" and "0 \<le> wall (snd tsRt)"
  shows "done_cb l (Callback startTime) status tDone tsPass tsRt =
           (None, l\<lparr>passStat := Add_write (snd (rotate_rc (passStat l) (fst tsPass))) 1 (snd tsPass),
                     rtStat := Add_write (snd (rotate_rc (rtStat l) (fst tsRt)))
                                 (quo64 (Sub tDone startTime) Millisecond) (snd tsRt),
                     inflight := wrap64 (inflight l - 1)\<rparr>)"
proof -
  obtain rp where rp: "rotate_rc (passStat l) (fst tsPass) = (None, rp)"
    using rotate_rc_total [OF assms(3), of "fst tsPass"]
    by (cases "rotate_rc (passStat l) (fst tsPass)") simp
  obtain rr where rr: "rotate_rc (rtStat l) (fst tsRt) = (None, rr)"
    using rotate_rc_total [OF assms(4), of "fst tsRt"]
    by (cases "rotate_rc (rtStat l) (fst tsRt)") simp
  have p: "buckets rp \<noteq> []" "0 < bucketDur rp"
    using rotate_rc_None [OF rp] assms(3) by (auto simp: rc_ok_def)
  have r: "buckets rr \<noteq> []" "0 < bucketDur rr"
    using rotate_rc_None [OF rr] assms(4) by (auto simp: rc_ok_def)
  have "Add (passStat l) 1 (fst tsPass) (snd tsPass) = (None, Add_write rp 1 (snd tsPass))"
    using rp p assms(5) by (rule Add_eq)
  moreover have "Add (rtStat l) (quo64 (Sub tDone startTime) Millisecond) (fst tsRt) (snd tsRt)
      = (None, Add_write rr (quo64 (Sub tDone startTime) Millisecond) (snd tsRt))"
    using rr r assms(6) by (rule Add_eq)
  ultimately show ?thesis using assms(1,2) rp rr by (simp add: done_cb_def Let_def)
qed

text \<open>
  C5, at the limiter built by \<open>Server(WithWindow(50))\<close>. \<open>init\<close> keeps the window of
  50ns, so the bucket duration of both counters is \<open>50 / 100 = 0\<close>. A request is
  admitted; its callback, invoked with status 200, panics with a division by zero in
  \<open>passStat.Add(1)\<close>: only the deferred decrement of \<open>inflight\<close> takes effect, and
  neither counter records anything.
\<close>

theorem done_cb_zero_bucket_duration_panics:
  "fst (Server_limiter [WithWindow 50] 500000000 (clock 0) (clock 0)) = Inr tiny_limiter
   \<and> Allow tiny_limiter (Fin 0.25) (clock 1) (clock 1) (clock 1)
       = Inr ((Some (Callback (clock 1)), None), tiny_limiter\<lparr>inflight := 1\<rparr>)
   \<and> done_cb (tiny_limiter\<lparr>inflight := 1\<rparr>) (Callback (clock 1)) 200 (clock 2000001)
         (clock 2000002, clock 2000003) (clock 2000004, clock 2000005)
       = (Some DivideByZero, tiny_limiter)"
proof -
  have s: "fst (Server_limiter [WithWindow 50] 500000000 (clock 0) (clock 0)) = Inr tiny_limiter"
    by code_simp
  have a: "Allow tiny_limiter (Fin 0.25) (clock 1) (clock 1) (clock 1)
       = Inr ((Some (Callback (clock 1)), None), tiny_limiter\<lparr>inflight := 1\<rparr>)"
    by code_simp
  have p: "Add (tiny_counter False) 1 (clock 2000002) (clock 2000003)
             = (Some DivideByZero, tiny_counter False)"
    by (simp add: Add_def rotate_rc_def tiny_counter_def Sub_def clock_def MaxInt64_def
        MinInt64_def)
  have d: "done_cb (tiny_limiter\<lparr>inflight := 1\<rparr>) (Callback (clock 1)) 200 (clock 2000001)
         (clock 2000002, clock 2000003) (clock 2000004, clock 2000005)
       = (Some DivideByZero, tiny_limiter)"
    by (simp add: done_cb_def tiny_limiter_def p wrap64_def)
  show ?thesis using s a d by simp
qed

section \<open>Min semantics\<close>


section \<open>Admission: \<open>Allow\<close> and \<open>shouldDrop\<close>\<close>

text \<open>
  C7 (low-concurrency bypass). In every limiter state (with a CPU function to call) whose
  in-flight count is at most 1, \<open>Allow\<close> succeeds: it returns a non-nil callback and a
  nil error, whatever the CPU reading, the recorded rejection time and the contents of
  the two counters are; the in-flight count goes up by one.
\<close>

theorem allow_low_concurrency:
  assumes "cpu l \<noteq> None" and "inflight l \<le> 1"
  shows "\<exists>l'. Allow l reading tSince tNow tStart = Inr ((Some (Callback tStart), None), l')
              \<and> inflight l' = wrap64 (inflight l + 1)"
  using assms
  by (auto simp: Allow_def shouldDrop_def Let_def split: option.splits)

theorem allow_low_concurrency_witness:
  "cpu (demo_limiter\<lparr>inflight := 1, lastDrop := Some (clock 0)\<rparr>) \<noteq> None
   \<and> inflight (demo_limiter\<lparr>inflight := 1, lastDrop := Some (clock 0)\<rparr>) \<le> 1
   \<and> fst (projr (Allow (demo_limiter\<lparr>inflight := 1, lastDrop := Some (clock 0)\<rparr>)
                        (Fin 0.75) (clock 5) (clock 6) (clock 7)))
       = (Some (Callback (clock 7)), None)"
proof -
  have h: "cpu (demo_limiter\<lparr>inflight := 1, lastDrop := Some (clock 0)\<rparr>) \<noteq> None"
          "inflight (demo_limiter\<lparr>inflight := 1, lastDrop := Some (clock 0)\<rparr>) \<le> 1"
    by (simp_all add: demo_limiter_def)
  from allow_low_concurrency [OF h, where reading = "Fin 0.75" and tSince = "clock 5"
      and tNow = "clock 6" and tStart = "clock 7"] h
  show ?thesis by auto
qed

text \<open>
  C8 (CPU-gated bypass). In every limiter state with no recorded rejection, a CPU reading
  strictly below \<open>CPUThreshold\<close> makes \<open>Allow\<close> succeed, for every value of the
  in-flight count and of the two counters; only the in-flight count changes.
\<close>

theorem allow_cpu_gated:
  assumes "cpu l \<noteq> None" and "reading < CPUThreshold (conf l)" and "lastDrop l = None"
  shows "Allow l reading tSince tNow tStart
           = Inr ((Some (Callback tStart), None), l\<lparr>inflight := wrap64 (inflight l + 1)\<rparr>)"
  using assms
  by (auto simp: Allow_def shouldDrop_def Let_def split: option.splits)

theorem allow_cpu_gated_witness:
  "cpu (demo_limiter\<lparr>inflight := 1000\<rparr>) \<noteq> None
   \<and> Fin 0.25 < CPUThreshold (conf (demo_limiter\<lparr>inflight := 1000\<rparr>))
   \<and> lastDrop (demo_limiter\<lparr>inflight := 1000\<rparr>) = None
   \<and> Allow (demo_limiter\<lparr>inflight := 1000\<rparr>) (Fin 0.25) (clock 5) (clock 6) (clock 7)
       = Inr ((Some (Callback (clock 7)), None), demo_limiter\<lparr>inflight := 1001\<rparr>)"
proof -
  have h: "cpu (demo_limiter\<lparr>inflight := 1000\<rparr>) \<noteq> None"
          "Fin 0.25 < CPUThreshold (conf (demo_limiter\<lparr>inflight := 1000\<rparr>))"
          "lastDrop (demo_limiter\<lparr>inflight := 1000\<rparr>) = None"
    by (simp_all add: demo_limiter_def demo_conf_def less_float64_def)
  from allow_cpu_gated [OF h, where tSince = "clock 5" and tNow = "clock 6" and tStart = "clock 7"] h
  show ?thesis by (simp add: wrap64_def)
qed

text \<open>
  C9 (no partial failure). \<open>Allow\<close> always returns, and it returns \<open>ErrLimitExceeded\<close>
  exactly when \<open>shouldDrop\<close> evaluates to true. In that case the callback is nil and the
  call leaves \<open>inflight\<close>, \<open>passStat\<close> and \<open>rtStat\<close> as they were. Otherwise the
  callback is non-nil, the error is nil, \<open>inflight\<close> is one higher (the 64-bit
  addition; exactly \<open>inflight + 1\<close> whenever that is an \<open>int64\<close>) and the two counters
  are untouched.
\<close>

theorem allow_iff_shouldDrop:
  assumes "cpu l \<noteq> None"
  shows "\<exists>b l1 cb err l2.
           shouldDrop l reading tSince tNow = Inr (b, l1)
         \<and> Allow l reading tSince tNow tStart = Inr ((cb, err), l2)
         \<and> ((err = Some ErrLimitExceeded) = b)
         \<and> (b \<longrightarrow> cb = None \<and> l2 = l1 \<and> inflight l2 = inflight l
                \<and> passStat l2 = passStat l \<and> rtStat l2 = rtStat l)
         \<and> (\<not> b \<longrightarrow> cb = Some (Callback tStart) \<and> err = None
                \<and> inflight l2 = wrap64 (inflight l + 1)
                \<and> (is_int64 (inflight l + 1) \<longrightarrow> inflight l2 = inflight l + 1)
                \<and> passStat l2 = passStat l \<and> rtStat l2 = rtStat l)"
  using assms
  by (auto simp: Allow_def shouldDrop_def Let_def wrap64_id split: option.splits)

theorem allow_iff_shouldDrop_witness:
  "cpu (demo_limiter\<lparr>inflight := 5\<rparr>) \<noteq> None
   \<and> shouldDrop (demo_limiter\<lparr>inflight := 5\<rparr>) (Fin 0.75) (clock 5) (clock 6)
       = Inr (True, demo_limiter\<lparr>inflight := 5, lastDrop := Some (clock 6)\<rparr>)
   \<and> Allow (demo_limiter\<lparr>inflight := 5\<rparr>) (Fin 0.75) (clock 5) (clock 6) (clock 7)
       = Inr ((None, Some ErrLimitExceeded),
              demo_limiter\<lparr>inflight := 5, lastDrop := Some (clock 6)\<rparr>)
   \<and> is_int64 (inflight (demo_limiter\<lparr>inflight := 1\<rparr>) + 1)
   \<and> shouldDrop (demo_limiter\<lparr>inflight := 1\<rparr>) (Fin 0.75) (clock 5) (clock 6)
       = Inr (False, demo_limiter\<lparr>inflight := 1\<rparr>)
   \<and> Allow (demo_limiter\<lparr>inflight := 1\<rparr>) (Fin 0.75) (clock 5) (clock 6) (clock 7)
       = Inr ((Some (Callback (clock 7)), None), demo_limiter\<lparr>inflight := 2\<rparr>)"
proof -
  have h5: "cpu (demo_limiter\<lparr>inflight := 5\<rparr>) \<noteq> None"
   and h1: "cpu (demo_limiter\<lparr>inflight := 1\<rparr>) \<noteq> None"
    by (simp_all add: demo_limiter_def)
  have d5: "shouldDrop (demo_limiter\<lparr>inflight := 5\<rparr>) (Fin 0.75) (clock 5) (clock 6)
       = Inr (True, demo_limiter\<lparr>inflight := 5, lastDrop := Some (clock 6)\<rparr>)"
    by code_simp
  have d1: "shouldDrop (demo_limiter\<lparr>inflight := 1\<rparr>) (Fin 0.75) (clock 5) (clock 6)
       = Inr (False, demo_limiter\<lparr>inflight := 1\<rparr>)"
    by code_simp
  have a1: "Allow (demo_limiter\<lparr>inflight := 1\<rparr>) (Fin 0.75) (clock 5) (clock 6) (clock 7)
       = Inr ((Some (Callback (clock 7)), None), demo_limiter\<lparr>inflight := 2\<rparr>)"
    by code_simp
  have i: "is_int64 (inflight (demo_limiter\<lparr>inflight := 1\<rparr>) + 1)"
    by (simp add: is_int64_def MinInt64_def MaxInt64_def)
  from allow_iff_shouldDrop [OF h5, where reading = "Fin 0.75" and tSince = "clock 5"
      and tNow = "clock 6" and tStart = "clock 7"]
    allow_iff_shouldDrop [OF h1, where reading = "Fin 0.75" and tSince = "clock 5"
      and tNow = "clock 6" and tStart = "clock 7"]
    h5 d5 d1 a1 i
  show ?thesis by auto
qed

section \<open>Cold start\<close>

lemma cold_frame:
  assumes "cold l0 l"
  shows "conf l = conf l0 \<and> passStat l = passStat l0 \<and> rtStat l = rtStat l0 \<and> cpu l = cpu l0"
  using assms
proof (induction rule: cold.induct)
  case cold_start
  show ?case by simp
next
  case (cold_Allow l reading tSince tNow tStart res l')
  from cold_Allow.hyps(2) have
    "conf l' = conf l \<and> passStat l' = passStat l \<and> rtStat l' = rtStat l \<and> cpu l' = cpu l"
    by (auto simp: Allow_def shouldDrop_def Let_def split: option.splits if_splits sum.splits bool.splits)
  with cold_Allow.IH show ?case by simp
next
  case (cold_done l status cb tDone tsPass tsRt e l')
  from cold_done.hyps(2,3) have "l' = l\<lparr>inflight := wrap64 (inflight l - 1)\<rparr>"
    by (cases cb) (auto simp: done_cb_def Let_def)
  with cold_done.IH show ?case by simp
qed

lemma demo_limiter_built:
  "Server_limiter [WithWindow 1000000000, WithBuckets 2, WithCPUThreshold (Fin 0.5),
                   WithCPU (Some (userCPU 0))] 500000000 (clock 0) (clock 0)
     = (Inr demo_limiter, 500000000)"
  by code_simp

text \<open>
  C10 (cold start). Take the limiter \<open>Server\<close> constructs and any state reached from
  it by admission checks and by completions that are not successes. There
  \<open>passStat.Max()\<close> is 0 and \<open>rtStat.Min()\<close> is 1, so \<open>maxInflight()\<close> is 0, and
  every \<open>Allow\<close> made with the CPU reading at or above \<open>CPUThreshold\<close> and an
  in-flight count of at least 2 is rejected.
\<close>

theorem cold_start_rejects:
  assumes "fst (Server_limiter opts g tPass tRt) = Inr l0" and "cold l0 l"
      and "CPUThreshold (conf l) \<le> reading" and "2 \<le> inflight l"
  shows "Max_rc (passStat l) = 0 \<and> Min_rc (rtStat l) = 1 \<and> maxInflight l = Fin 0
       \<and> Allow l reading tSince tNow tStart
           = Inr ((None, Some ErrLimitExceeded), l\<lparr>lastDrop := Some tNow\<rparr>)"
proof -
  define o' where "o' = fst (init (apply_opts defaultOptions opts) g)"
  have b: "0 < Buckets o'" unfolding o'_def init_fields by simp
  have w: "0 < Window o'" unfolding o'_def init_fields by (simp add: Second_def)
  have c: "CPU o' \<noteq> None" unfolding o'_def init_fields by simp
  have "fst (Server_limiter opts g tPass tRt) = newLimiter o' tPass tRt"
    by (cases "init (apply_opts defaultOptions opts) g") (simp add: Server_limiter_def o'_def)
  with assms(1) have n: "newLimiter o' tPass tRt = Inr l0" by simp
  then obtain p r where
    p: "newRollingCounter (Window o') (Buckets o') False tPass = Inr p" and
    r: "newRollingCounter (Window o') (Buckets o') True tRt = Inr r" and
    l0: "passStat l0 = p" "rtStat l0 = r" "cpu l0 = CPU o'" "conf l0 = o'"
    by (auto simp: newLimiter_def split: sum.splits)
  from cold_frame [OF assms(2)] l0 have
    l: "passStat l = p" "rtStat l = r" "cpu l = CPU o'" "conf l = o'" by simp_all
  have mx: "Max_rc (passStat l) = 0" using Max_rc_fresh [OF p] l by simp
  have mn: "Min_rc (rtStat l) = 1" using Min_rc_fresh [OF r] l by simp
  have mi: "maxInflight l = Fin 0"
    using maxInflight_Fin [of l] w b by (simp add: l(4) mx)
  have nb: "\<not> reading < CPUThreshold (conf l)" using assms(3) by (rule float64_not_less)
  have "0 < round64 (real_of_int (inflight l))" using assms(4) by (intro round64_pos) simp
  then have "of_int64 (inflight l) > maxInflight l"
    by (simp add: mi of_int64_def less_float64_def)
  then have "shouldDrop l reading tSince tNow = Inr (True, l\<lparr>lastDrop := Some tNow\<rparr>)"
    using nb assms(4) c l(3) by (auto simp: shouldDrop_def Let_def split: option.splits)
  then show ?thesis using mx mn mi by (simp add: Allow_def)
qed

theorem cold_start_rejects_witness:
  "fst (Server_limiter [WithWindow 1000000000, WithBuckets 2, WithCPUThreshold (Fin 0.5),
                        WithCPU (Some (userCPU 0))] 500000000 (clock 0) (clock 0))
     = Inr demo_limiter
   \<and> cold demo_limiter (demo_limiter\<lparr>inflight := 2\<rparr>)
   \<and> CPUThreshold (conf (demo_limiter\<lparr>inflight := 2\<rparr>)) \<le> Fin 0.75
   \<and> 2 \<le> inflight (demo_limiter\<lparr>inflight := 2\<rparr>)
   \<and> Allow (demo_limiter\<lparr>inflight := 2\<rparr>) (Fin 0.75) (clock 5) (clock 6) (clock 7)
       = Inr ((None, Some ErrLimitExceeded),
              demo_limiter\<lparr>inflight := 2, lastDrop := Some (clock 6)\<rparr>)"
proof -
  have b: "fst (Server_limiter [WithWindow 1000000000, WithBuckets 2, WithCPUThreshold (Fin 0.5),
                        WithCPU (Some (userCPU 0))] 500000000 (clock 0) (clock 0))
     = Inr demo_limiter"
    by (simp only: demo_limiter_built fst_conv)
  have a1: "Allow demo_limiter (Fin 0.75) (clock 1) (clock 1) (clock 1)
       = Inr ((Some (Callback (clock 1)), None), demo_limiter\<lparr>inflight := 1\<rparr>)"
    by code_simp
  have a2: "Allow (demo_limiter\<lparr>inflight := 1\<rparr>) (Fin 0.75) (clock 2) (clock 2) (clock 2)
       = Inr ((Some (Callback (clock 2)), None), demo_limiter\<lparr>inflight := 2\<rparr>)"
    by code_simp
  have c: "cold demo_limiter (demo_limiter\<lparr>inflight := 2\<rparr>)"
    by (rule cold_Allow [OF cold_Allow [OF cold_start a1] a2])
  have t: "CPUThreshold (conf (demo_limiter\<lparr>inflight := 2\<rparr>)) \<le> Fin 0.75"
    and i: "2 \<le> inflight (demo_limiter\<lparr>inflight := 2\<rparr>)"
    by (simp_all add: demo_limiter_def demo_conf_def less_eq_float64_def)
  from cold_start_rejects [OF b c t i, where tSince = "clock 5" and tNow = "clock 6"
      and tStart = "clock 7"] b c t i
  show ?thesis by simp
qed

end
